theory Spec2Isabelle
  imports Main "HOL-Library.Signed_Division"
begin

section \<open>Go values: machine integers, panics, slices\<close>

text \<open>
  Go's \<^verbatim>\<open>int\<close> is a 64-bit two's complement integer on the platforms the package targets.
  It is modelled by \<^typ>\<open>int\<close> with the wrap-around written out: every product and sum the
  source computes goes through \<open>wrap64\<close>.  Division is Go's truncating division
  (\<open>sdiv\<close>).
\<close>

definition wrap64 :: "int \<Rightarrow> int" where
  "wrap64 x = (x + 2 ^ 63) mod 2 ^ 64 - 2 ^ 63"

definition mul64 :: "int \<Rightarrow> int \<Rightarrow> int" where
  "mul64 a b = wrap64 (a * b)"

definition add64 :: "int \<Rightarrow> int \<Rightarrow> int" where
  "add64 a b = wrap64 (a + b)"

text \<open>
  A run-time panic aborts the program.  Functions that can panic return
  \<open>panic + 'a\<close>, with \<open>Inl\<close> for the panic.  \<open>Wilma\<close> is the explicit
  \<^verbatim>\<open>panic("wilma!")\<close> of \<^verbatim>\<open>io.go\<close>; the others are raised by the Go run time.
\<close>

datatype panic = IndexOutOfRange | SliceBounds | MakeLen | NilDeref | Wilma

text \<open>
  A slice is a view (offset, length, capacity) of a backing array.  Backing arrays live
  in a heap, a list of arrays addressed by position; \<^verbatim>\<open>make\<close> appends a fresh
  zero-filled array.  Two slices share storage when they have the same \<open>base\<close>.
  The nil slice has length and capacity 0.  Samples (\<^verbatim>\<open>float64\<close> in the source) are only
  moved by the code modelled here, never computed with, so their type is a parameter
  \<open>'a\<close> with a zero, the value a fresh array is filled with.
\<close>

type_synonym 'a heap = "'a list list"

record slice =
  base :: nat
  off :: nat
  len :: nat
  cap :: nat

definition nil_slice :: slice where
  "nil_slice = \<lparr>base = 0, off = 0, len = 0, cap = 0\<rparr>"

text \<open>\<^verbatim>\<open>make([]T, n)\<close>: panics on a negative length.\<close>

definition make_slice :: "'a::zero heap \<Rightarrow> int \<Rightarrow> panic + ('a heap \<times> slice)" where
  "make_slice h k =
     (if k < 0 then Inl MakeLen
      else Inr (h @ [replicate (nat k) 0],
                \<lparr>base = length h, off = 0, len = nat k, cap = nat k\<rparr>))"

text \<open>\<^verbatim>\<open>s[a:b]\<close>: panics unless \<open>0 \<le> a \<le> b \<le> cap(s)\<close>; the result shares the array.\<close>

definition reslice :: "slice \<Rightarrow> int \<Rightarrow> int \<Rightarrow> panic + slice" where
  "reslice s a b =
     (if 0 \<le> a \<and> a \<le> b \<and> b \<le> int (cap s)
      then Inr \<lparr>base = base s, off = off s + nat a, len = nat (b - a), cap = cap s - nat a\<rparr>
      else Inl SliceBounds)"

text \<open>
  \<^verbatim>\<open>copy(d, s)\<close> moves \<open>min(len(d), len(s))\<close> elements from the start of \<open>s\<close> to
  the start of \<open>d\<close>.  The source elements are read from the heap before the write, as
  Go's \<^verbatim>\<open>copy\<close> is correct on overlapping slices.
\<close>

definition copy :: "'a heap \<Rightarrow> slice \<Rightarrow> slice \<Rightarrow> 'a heap" where
  "copy h d s =
     (let k = min (len d) (len s);
          vals = take k (drop (off s) (h ! base s));
          A = h ! base d
      in if k = 0 then h
         else h[base d := take (off d) A @ vals @ drop (off d + k) A])"

text \<open>The elements a slice shows, and when a slice lies inside an array of the heap.\<close>

definition contents :: "'a heap \<Rightarrow> slice \<Rightarrow> 'a list" where
  "contents h s = take (len s) (drop (off s) (h ! base s))"

definition valid_slice :: "'a heap \<Rightarrow> slice \<Rightarrow> bool" where
  "valid_slice h s \<longleftrightarrow>
     len s \<le> cap s \<and>
     (cap s = 0 \<or> (base s < length h \<and> off s + cap s \<le> length (h ! base s)))"

section \<open>Channel maps (\<^verbatim>\<open>cmap.go\<close>)\<close>

text \<open>
  \<^verbatim>\<open>sound.Form\<close> is an external type: a sample rate and a channel count.
\<close>

record form =
  fSampleRate :: int
  fChannels :: int

record cmap =
  cmap_m :: "int list"
  cmap_i :: "int list"

text \<open>
  The loop \<^verbatim>\<open>for i, c := range cs { res.m[c] = i; res.i[i] = c }\<close>.
  \<^verbatim>\<open>res.m[c]\<close> panics when \<open>c\<close> is out of range; \<open>k\<close> is the loop index \<open>i\<close>.
\<close>

fun cmap_fill :: "int list \<Rightarrow> nat \<Rightarrow> cmap \<Rightarrow> panic + cmap" where
  "cmap_fill [] k res = Inr res"
| "cmap_fill (c # cs) k res =
     (if c < 0 \<or> int (length (cmap_m res)) \<le> c then Inl IndexOutOfRange
      else cmap_fill cs (Suc k)
             (res\<lparr>cmap_m := (cmap_m res)[nat c := int k],
                  cmap_i := (cmap_i res)[k := c]\<rparr>))"

text \<open>
  \<^verbatim>\<open>newCmap\<close>.  \<^verbatim>\<open>make\<close> panics on a negative channel count.  With no selection the
  loop \<^verbatim>\<open>for i := range res.m { res.m[i] = i; res.i[i] = i }\<close> leaves the identity in
  both tables; with a selection both tables are first filled with \<open>-1\<close>.
\<close>

definition newCmap :: "form \<Rightarrow> int list \<Rightarrow> panic + cmap" where
  "newCmap v cs =
     (let nC = fChannels v in
      if nC < 0 then Inl MakeLen
      else if cs = [] then
        Inr \<lparr>cmap_m = map int [0..<nat nC], cmap_i = map int [0..<nat nC]\<rparr>
      else
        cmap_fill cs 0
          \<lparr>cmap_m = replicate (nat nC) (- 1), cmap_i = replicate (length cs) (- 1)\<rparr>)"

text \<open>\<^verbatim>\<open>mapC\<close> and \<^verbatim>\<open>imapC\<close> index the tables; an index out of range panics.\<close>

definition index_int :: "int list \<Rightarrow> int \<Rightarrow> panic + int" where
  "index_int xs c =
     (if 0 \<le> c \<and> c < int (length xs) then Inr (xs ! nat c) else Inl IndexOutOfRange)"

definition mapC :: "cmap \<Rightarrow> int \<Rightarrow> panic + int" where
  "mapC cm c = index_int (cmap_m cm) c"

definition imapC :: "cmap \<Rightarrow> int \<Rightarrow> panic + int" where
  "imapC cm c = index_int (cmap_i cm) c"

section \<open>Blocks and packets (\<^verbatim>\<open>packet.go\<close>)\<close>

text \<open>
  Errors are values.  \<open>EOF\<close> is \<^verbatim>\<open>io.EOF\<close>; the next four are the configuration errors
  built by \<^verbatim>\<open>fmt.Errorf\<close> in \<^verbatim>\<open>io.go\<close>; \<open>DisconnectedError\<close> carries the direction and
  the channel; \<open>StreamError\<close> stands for any other error of a source or sink.
\<close>

datatype error =
    EOF
  | FrequencyMismatch
  | ChannelMismatch int int
  | AlreadyHasInput int
  | DisconnectedError bool int
  | StreamError nat

record Block =
  Samples :: slice
  Frames :: int
  Channels :: int
  SampleRate :: int

text \<open>
  \<^verbatim>\<open>sound.Source\<close> and \<^verbatim>\<open>sound.Sink\<close> are external interfaces.  An endpoint is known
  by its form and an identity; what \<^verbatim>\<open>Receive\<close> and \<^verbatim>\<open>Send\<close> do is a parameter
  of the functions that call them.
\<close>

record endpoint =
  eForm :: form
  eId :: nat

record packet =
  p_err :: "error option"
  p_n :: int
  p_samples :: slice
  p_cmap :: "cmap option"
  p_nC :: int
  p_src :: "endpoint option"
  p_snk :: "endpoint option"

text \<open>The zero value \<^verbatim>\<open>packet{}\<close>: nil pointers, nil slice.\<close>

definition zero_packet :: packet where
  "zero_packet = \<lparr>p_err = None, p_n = 0, p_samples = nil_slice, p_cmap = None, p_nC = 0,
                   p_src = None, p_snk = None\<rparr>"

definition init :: "packet \<Rightarrow> form \<Rightarrow> int list \<Rightarrow> panic + packet" where
  "init p v cs =
     (case newCmap v cs of
        Inl e \<Rightarrow> Inl e
      | Inr cm \<Rightarrow>
         (case reslice (p_samples p) 0 0 of
            Inl e \<Rightarrow> Inl e
          | Inr sl \<Rightarrow>
              Inr (p\<lparr>p_cmap := Some cm, p_err := None, p_n := 0, p_samples := sl,
                     p_nC := (if cs = [] then fChannels v else int (length cs))\<rparr>)))"

text \<open>
  \<^verbatim>\<open>buffer(d, c, f)\<close>: the capacity rule of every sample buffer.  The new array has
  \<open>(5*N)/3\<close> elements, Go's truncating division.
\<close>

definition buffer :: "'a::zero heap \<Rightarrow> slice \<Rightarrow> int \<Rightarrow> int \<Rightarrow> panic + ('a heap \<times> slice)" where
  "buffer h d c f =
     (let N = mul64 c f in
      if int (cap d) < N then
        (case make_slice h (mul64 5 N sdiv 3) of
           Inl e \<Rightarrow> Inl e
         | Inr (h1, tmp) \<Rightarrow>
            (let h2 = copy h1 tmp d in
             case reslice tmp 0 N of
               Inl e \<Rightarrow> Inl e
             | Inr d' \<Rightarrow> Inr (h2, d')))
      else
        (case reslice d 0 N of
           Inl e \<Rightarrow> Inl e
         | Inr d' \<Rightarrow> Inr (h, d')))"

text \<open>
  One iteration of the loop of \<^verbatim>\<open>put\<close>, for destination channel \<open>c\<close>.  The packet's
  channel map is a pointer; the zero packet's is nil.
\<close>

definition put_chan :: "'a heap \<Rightarrow> packet \<Rightarrow> Block \<Rightarrow> int \<Rightarrow> panic + 'a heap" where
  "put_chan h p dst c =
     (case p_cmap p of
        None \<Rightarrow> Inl NilDeref
      | Some cm \<Rightarrow>
         (case mapC cm c of
            Inl e \<Rightarrow> Inl e
          | Inr cc \<Rightarrow>
             if cc = - 1 then Inr h
             else
               (let frms = p_n p;
                    sStart = mul64 cc frms;
                    sEnd = add64 sStart frms;
                    dStart = mul64 c frms;
                    dEnd = add64 dStart frms
                in case reslice (Samples dst) dStart dEnd of
                     Inl e \<Rightarrow> Inl e
                   | Inr d \<Rightarrow>
                      (case reslice (p_samples p) sStart sEnd of
                         Inl e \<Rightarrow> Inl e
                       | Inr s \<Rightarrow> Inr (copy h d s)))))"

fun put_loop :: "'a heap \<Rightarrow> packet \<Rightarrow> Block \<Rightarrow> nat list \<Rightarrow> panic + 'a heap" where
  "put_loop h p dst [] = Inr h"
| "put_loop h p dst (c # cs) =
     (case put_chan h p dst (int c) of
        Inl e \<Rightarrow> Inl e
      | Inr h' \<Rightarrow> put_loop h' p dst cs)"

text \<open>\<^verbatim>\<open>put\<close> runs \<open>c\<close> over \<open>0 .. dst.Channels - 1\<close> and returns the packet's frame count.\<close>

definition put :: "'a heap \<Rightarrow> packet \<Rightarrow> Block \<Rightarrow> panic + ('a heap \<times> int)" where
  "put h p dst =
     (case put_loop h p dst [0..<nat (Channels dst)] of
        Inl e \<Rightarrow> Inl e
      | Inr h' \<Rightarrow> Inr (h', p_n p))"

text \<open>One iteration of the loop of \<^verbatim>\<open>get\<close>, for local channel \<open>cc\<close>, into the slice \<open>sl\<close>.\<close>

definition get_chan :: "'a heap \<Rightarrow> cmap \<Rightarrow> slice \<Rightarrow> Block \<Rightarrow> int \<Rightarrow> panic + 'a heap" where
  "get_chan h cm sl src cc =
     (case imapC cm cc of
        Inl e \<Rightarrow> Inl e
      | Inr c \<Rightarrow>
         (let frms = Frames src;
              sStart = mul64 c frms;
              sEnd = add64 sStart frms;
              dStart = mul64 cc frms;
              dEnd = add64 dStart frms
          in case reslice sl dStart dEnd of
               Inl e \<Rightarrow> Inl e
             | Inr d \<Rightarrow>
                (case reslice (Samples src) sStart sEnd of
                   Inl e \<Rightarrow> Inl e
                 | Inr s \<Rightarrow> Inr (copy h d s))))"

fun get_loop :: "'a heap \<Rightarrow> cmap \<Rightarrow> slice \<Rightarrow> Block \<Rightarrow> nat list \<Rightarrow> panic + 'a heap" where
  "get_loop h cm sl src [] = Inr h"
| "get_loop h cm sl src (cc # ccs) =
     (case get_chan h cm sl src (int cc) of
        Inl e \<Rightarrow> Inl e
      | Inr h' \<Rightarrow> get_loop h' cm sl src ccs)"

definition get :: "'a::zero heap \<Rightarrow> packet \<Rightarrow> Block \<Rightarrow> panic + ('a heap \<times> packet)" where
  "get h p src =
     (case p_cmap p of
        None \<Rightarrow> Inl NilDeref
      | Some cm \<Rightarrow>
         (let nC = int (length (cmap_i cm));
              frms = Frames src
          in case buffer h (p_samples p) nC frms of
               Inl e \<Rightarrow> Inl e
             | Inr (h1, sl) \<Rightarrow>
                (case get_loop h1 cm sl src [0..<length (cmap_i cm)] of
                   Inl e \<Rightarrow> Inl e
                 | Inr h2 \<Rightarrow> Inr (h2, p\<lparr>p_samples := sl, p_n := frms\<rparr>))))"

section \<open>Connection workers (\<^verbatim>\<open>conn.go\<close>)\<close>

text \<open>
  A node owns five channels; a connection holds three of them.  Only the identity of a
  channel is kept.
\<close>

datatype chan = InC | PrC | OC | OdC | DoneC

record conn =
  c_iC :: chan
  c_oC :: chan
  c_doneC :: chan

definition newConn :: "chan \<Rightarrow> chan \<Rightarrow> chan \<Rightarrow> conn" where
  "newConn ic oc dc = \<lparr>c_iC = ic, c_oC = oc, c_doneC = dc\<rparr>"

text \<open>
  The external endpoints.  \<^verbatim>\<open>Receive\<close> fills the slice it is given and returns a frame
  count and an error; \<^verbatim>\<open>Send\<close> returns an error.  Both may depend on and change the state
  \<open>'x\<close> of the outside world.  \<open>InDelay\<close> and \<open>OutDelay\<close> give the time at which the
  response to the \<open>i\<close>-th request of a cycle reaches the node: responses are received in
  the order of these times.
\<close>

record ('a, 'x) endpoints =
  Receive :: "endpoint \<Rightarrow> slice \<Rightarrow> 'a heap \<Rightarrow> 'x \<Rightarrow> (int \<times> error option) \<times> 'a heap \<times> 'x"
  Send :: "endpoint \<Rightarrow> slice \<Rightarrow> 'a heap \<Rightarrow> 'x \<Rightarrow> error option \<times> 'x"
  InDelay :: "'x \<Rightarrow> nat \<Rightarrow> nat"
  OutDelay :: "'x \<Rightarrow> nat \<Rightarrow> nat"

text \<open>The local variables \<^verbatim>\<open>m\<close> and \<^verbatim>\<open>err\<close> of \<^verbatim>\<open>serve\<close>; both start at their zero value.\<close>

record worker =
  w_m :: int
  w_err :: "error option"

definition worker0 :: worker where
  "worker0 = \<lparr>w_m = 0, w_err = None\<rparr>"

text \<open>
  The body of \<^verbatim>\<open>case pkt := <-iC\<close> up to the assignments to \<^verbatim>\<open>pkt.n\<close> and
  \<^verbatim>\<open>pkt.err\<close>.  The packet is a pointer: the updated packet is returned.
\<close>

definition serve_request ::
  "('a, 'x) endpoints \<Rightarrow> worker \<Rightarrow> packet \<Rightarrow> 'a heap \<Rightarrow> 'x \<Rightarrow>
     panic + (worker \<times> packet \<times> 'a heap \<times> 'x)" where
  "serve_request E w pkt h x =
     (case p_snk pkt of
        None \<Rightarrow>
          (case p_src pkt of
             None \<Rightarrow> Inl NilDeref
           | Some src \<Rightarrow>
               (case Receive E src (p_samples pkt) h x of
                  ((m, err), h', x') \<Rightarrow>
                    Inr (\<lparr>w_m = m, w_err = err\<rparr>, pkt\<lparr>p_n := m, p_err := err\<rparr>, h', x')))
      | Some snk \<Rightarrow>
          (case Send E snk (p_samples pkt) h x of
             (err, x') \<Rightarrow>
               Inr (w\<lparr>w_err := err\<rparr>, pkt\<lparr>p_n := w_m w, p_err := err\<rparr>, h, x')))"




section \<open>Processors (\<^verbatim>\<open>proc.go\<close>)\<close>

text \<open>
  \<^verbatim>\<open>Processor\<close> is an interface.  Its methods are functions of the processor's own
  state \<open>'p\<close>; \<^verbatim>\<open>Process(dst, src)\<close> receives two pointers and may change both Blocks
  and the samples in the heap.
\<close>

definition MonoMode :: int where "MonoMode = 0"
definition FullMode :: int where "FullMode = 1"

record ('a, 'p) processor =
  ChannelMode :: "'p \<Rightarrow> int"
  NextFrames :: "'p \<Rightarrow> (int \<times> int) \<times> 'p"
  Process :: "'p \<Rightarrow> 'a heap \<Rightarrow> Block \<Rightarrow> Block \<Rightarrow>
                panic + (error option \<times> 'p \<times> 'a heap \<times> Block \<times> Block)"

section \<open>Nodes: wiring (\<^verbatim>\<open>io.go\<close>)\<close>

text \<open>
  The node, with the state of its processor in \<open>proc\<close>.  The two Blocks are pointers
  owned by the node and are kept by value.  The mutex is left out: every method holds
  it from start to end, so each call is modelled as one step.  The five channels are
  the constants of type \<open>chan\<close>.
\<close>

record 'p node =
  iForm :: form
  oForm :: form
  iBlock :: Block
  oBlock :: Block
  icCounts :: "int list"
  ocCounts :: "int list"
  ins :: "conn list"
  outs :: "conn list"
  iPkts :: "packet list"
  oPkts :: "packet list"
  proc :: 'p

definition New :: "form \<Rightarrow> form \<Rightarrow> 'p \<Rightarrow> panic + 'p node" where
  "New iF oF pr =
     (if fChannels iF < 0 \<or> fChannels oF < 0 then Inl MakeLen
      else Inr \<lparr>iForm = iF, oForm = oF,
                iBlock = \<lparr>Samples = nil_slice, Frames = 0, Channels = fChannels iF,
                          SampleRate = fSampleRate iF\<rparr>,
                oBlock = \<lparr>Samples = nil_slice, Frames = 0, Channels = fChannels oF,
                          SampleRate = fSampleRate oF\<rparr>,
                icCounts = replicate (nat (fChannels iF)) 0,
                ocCounts = replicate (nat (fChannels oF)) 0,
                ins = [], outs = [], iPkts = [], oPkts = [], proc = pr\<rparr>)"

text \<open>\<^verbatim>\<open>for i := range cts { cts[i]++ }\<close>\<close>

definition incr_all :: "int list \<Rightarrow> int list" where
  "incr_all cts = map (\<lambda>ct. add64 ct 1) cts"

text \<open>\<^verbatim>\<open>for _, c := range cs { cts[c]++ }\<close>; indexing out of range panics.\<close>

fun incr_each :: "int list \<Rightarrow> int list \<Rightarrow> panic + int list" where
  "incr_each cts [] = Inr cts"
| "incr_each cts (c # cs) =
     (if 0 \<le> c \<and> c < int (length cts)
      then incr_each (cts[nat c := add64 (cts ! nat c) 1]) cs
      else Inl IndexOutOfRange)"

text \<open>
  The three wiring calls end in the same way: a connection and a zero packet are
  appended, the packet at index \<open>m\<close> (the number of connections before the call) is
  initialised in place and given its endpoints.  In \<^verbatim>\<open>Output\<close> both branches of the
  \<^verbatim>\<open>if\<close> run the loop over all counters, as in the source; \<^verbatim>\<open>sound.Pipe\<close> is external
  and a parameter.
\<close>

definition Output ::
  "(form \<Rightarrow> endpoint \<times> endpoint) \<Rightarrow> 'p node \<Rightarrow> int list \<Rightarrow> panic + (endpoint \<times> 'p node)" where
  "Output Pipe n cs =
     (let ov = (if cs \<noteq> [] then \<lparr>fSampleRate = fSampleRate (oForm n),
                                    fChannels = int (length cs)\<rparr>
                else oForm n);
          n1 = (if cs \<noteq> [] then n\<lparr>ocCounts := incr_all (ocCounts n)\<rparr>
                else n\<lparr>ocCounts := incr_all (ocCounts n)\<rparr>);
          cn = newConn OC OdC DoneC;
          m = length (outs n1);
          n2 = n1\<lparr>outs := outs n1 @ [cn], oPkts := oPkts n1 @ [zero_packet]\<rparr>
      in if length (oPkts n2) \<le> m then Inl IndexOutOfRange
         else
           (case init (oPkts n2 ! m) (oForm n2) cs of
              Inl e \<Rightarrow> Inl e
            | Inr pkt \<Rightarrow>
                (case Pipe ov of
                   (src, snk) \<Rightarrow>
                     Inr (src, n2\<lparr>oPkts := (oPkts n2)[m := pkt\<lparr>p_src := Some src,
                                                                 p_snk := Some snk\<rparr>]\<rparr>))))"

definition AddOutput :: "'p node \<Rightarrow> endpoint \<Rightarrow> int list \<Rightarrow> panic + (error option \<times> 'p node)" where
  "AddOutput n d cs =
     (if fSampleRate (eForm d) \<noteq> fSampleRate (oForm n) then Inr (Some FrequencyMismatch, n)
      else if cs = [] \<and> fChannels (eForm d) \<noteq> fChannels (oForm n)
        then Inr (Some (ChannelMismatch (fChannels (eForm d)) (fChannels (oForm n))), n)
      else if cs \<noteq> [] \<and> fChannels (eForm d) \<noteq> int (length cs)
        then Inr (Some (ChannelMismatch (fChannels (eForm d)) (int (length cs))), n)
      else
        (case (if cs = [] then Inr (incr_all (ocCounts n)) else incr_each (ocCounts n) cs) of
           Inl e \<Rightarrow> Inl e
         | Inr cts \<Rightarrow>
            (let n1 = n\<lparr>ocCounts := cts\<rparr>;
                 cn = newConn OC OdC DoneC;
                 m = length (outs n1);
                 n2 = n1\<lparr>outs := outs n1 @ [cn], oPkts := oPkts n1 @ [zero_packet]\<rparr>
             in if length (oPkts n2) \<le> m then Inl IndexOutOfRange
                else
                  (case init (oPkts n2 ! m) (oForm n2) cs of
                     Inl e \<Rightarrow> Inl e
                   | Inr pkt \<Rightarrow>
                       Inr (None, n2\<lparr>oPkts := (oPkts n2)[m := pkt\<lparr>p_snk := Some d,
                                                                    p_src := None\<rparr>]\<rparr>)))))"

text \<open>
  \<^verbatim>\<open>ckInputsUnique\<close>.  With no selection: the first loop returns an error at the first
  positive counter, the second sets every counter to 1.  With a selection: the first
  loop reads \<^verbatim>\<open>icCounts[c]\<close> for each \<open>c\<close> of \<open>cs\<close> in turn, the second sets those
  counters to 1.
\<close>

fun first_positive :: "int list \<Rightarrow> nat \<Rightarrow> nat option" where
  "first_positive [] k = None"
| "first_positive (ct # cts) k = (if ct > 0 then Some k else first_positive cts (Suc k))"

fun first_claimed :: "int list \<Rightarrow> int list \<Rightarrow> panic + int option" where
  "first_claimed cts [] = Inr None"
| "first_claimed cts (c # cs) =
     (if 0 \<le> c \<and> c < int (length cts)
      then (if cts ! nat c > 0 then Inr (Some c) else first_claimed cts cs)
      else Inl IndexOutOfRange)"

fun set_each :: "int list \<Rightarrow> int list \<Rightarrow> panic + int list" where
  "set_each cts [] = Inr cts"
| "set_each cts (c # cs) =
     (if 0 \<le> c \<and> c < int (length cts)
      then set_each (cts[nat c := 1]) cs
      else Inl IndexOutOfRange)"

definition ckInputsUnique :: "'p node \<Rightarrow> int list \<Rightarrow> panic + (error option \<times> 'p node)" where
  "ckInputsUnique n cs =
     (if cs = [] then
        (case first_positive (icCounts n) 0 of
           Some c \<Rightarrow> Inr (Some (AlreadyHasInput (int c)), n)
         | None \<Rightarrow> Inr (None, n\<lparr>icCounts := map (\<lambda>ct. 1) (icCounts n)\<rparr>))
      else
        (case first_claimed (icCounts n) cs of
           Inl e \<Rightarrow> Inl e
         | Inr (Some c) \<Rightarrow> Inr (Some (AlreadyHasInput c), n)
         | Inr None \<Rightarrow>
            (case set_each (icCounts n) cs of
               Inl e \<Rightarrow> Inl e
             | Inr cts \<Rightarrow> Inr (None, n\<lparr>icCounts := cts\<rparr>))))"

definition SetInput :: "'p node \<Rightarrow> endpoint \<Rightarrow> int list \<Rightarrow> panic + (error option \<times> 'p node)" where
  "SetInput n src cs =
     (if fSampleRate (eForm src) \<noteq> fSampleRate (iForm n) then Inr (Some FrequencyMismatch, n)
      else
        (case ckInputsUnique n cs of
           Inl e \<Rightarrow> Inl e
         | Inr (Some err, n1) \<Rightarrow> Inr (Some err, n1)
         | Inr (None, n1) \<Rightarrow>
            (let cn = newConn InC PrC DoneC;
                 m = length (ins n1);
                 n2 = n1\<lparr>ins := ins n1 @ [cn], iPkts := iPkts n1 @ [zero_packet]\<rparr>
             in if length (iPkts n2) \<le> m then Inl IndexOutOfRange
                else
                  (case init (iPkts n2 ! m) (iForm n2) cs of
                     Inl e \<Rightarrow> Inl e
                   | Inr pkt \<Rightarrow>
                       Inr (None, n2\<lparr>iPkts := (iPkts n2)[m := pkt\<lparr>p_src := Some src\<rparr>]\<rparr>)))))"

text \<open>\<^verbatim>\<open>checkConns\<close>: the first counter equal to 0, inputs before outputs.\<close>

fun first_zero :: "int list \<Rightarrow> nat \<Rightarrow> nat option" where
  "first_zero [] k = None"
| "first_zero (ct # cts) k = (if ct = 0 then Some k else first_zero cts (Suc k))"

definition checkConns :: "'p node \<Rightarrow> error option" where
  "checkConns n =
     (case first_zero (icCounts n) 0 of
        Some i \<Rightarrow> Some (DisconnectedError True (int i))
      | None \<Rightarrow>
          (case first_zero (ocCounts n) 0 of
             Some i \<Rightarrow> Some (DisconnectedError False (int i))
           | None \<Rightarrow> None))"

section \<open>Nodes: the processing cycle (\<^verbatim>\<open>io.go\<close>, \<^verbatim>\<open>process\<close>)\<close>

text \<open>
  The program state a cycle works on: the heap of sample arrays, the node, and the
  state of the outside world.
\<close>

record ('a, 'p, 'x) state =
  st_heap :: "'a heap"
  st_node :: "'p node"
  st_ext :: 'x

text \<open>
  The loop that triggers the receives: for each input connection \<open>i\<close>, the packet
  \<^verbatim>\<open>&n.iPkts[i]\<close> is reset, its buffer sized, and its address sent on \<^verbatim>\<open>inC\<close>.
\<close>

fun trigger_inputs ::
  "'a::zero heap \<Rightarrow> packet list \<Rightarrow> int \<Rightarrow> nat list \<Rightarrow> panic + ('a heap \<times> packet list)" where
  "trigger_inputs h pkts iFrms [] = Inr (h, pkts)"
| "trigger_inputs h pkts iFrms (i # is) =
     (if length pkts \<le> i then Inl IndexOutOfRange
      else
        (let pkt = (pkts ! i)\<lparr>p_err := None, p_n := iFrms\<rparr> in
         case buffer h (p_samples pkt) (p_nC pkt) (p_n pkt) of
           Inl e \<Rightarrow> Inl e
         | Inr (h', sl) \<Rightarrow> trigger_inputs h' (pkts[i := pkt\<lparr>p_samples := sl\<rparr>]) iFrms is))"

text \<open>
  The workers' side of one phase: every request is handled once by some worker of the
  direction.  A worker of an input connection assigns both of its locals on every
  request, and a worker of an output connection never assigns \<^verbatim>\<open>m\<close>, so each request
  is handled as from the zero locals.  A panic in a worker aborts the program.
\<close>

fun workers ::
  "('a, 'x) endpoints \<Rightarrow> packet list \<Rightarrow> nat list \<Rightarrow> 'a heap \<Rightarrow> 'x \<Rightarrow>
     panic + (packet list \<times> 'a heap \<times> 'x)" where
  "workers E pkts [] h x = Inr (pkts, h, x)"
| "workers E pkts (i # is) h x =
     (case serve_request E worker0 (pkts ! i) h x of
        Inl e \<Rightarrow> Inl e
      | Inr (w, pkt', h', x') \<Rightarrow> workers E (pkts[i := pkt']) is h' x')"

text \<open>
  The loop that reads all input into \<^verbatim>\<open>iBlock\<close>, over the packets in the order in which
  they are received from \<^verbatim>\<open>prC\<close>.  \<open>nFrms\<close> starts at \<open>-1\<close>.
\<close>

fun read_inputs ::
  "'a heap \<Rightarrow> Block \<Rightarrow> int \<Rightarrow> packet list \<Rightarrow> panic + (error option \<times> 'a heap \<times> int)" where
  "read_inputs h iB nFrms [] = Inr (None, h, nFrms)"
| "read_inputs h iB nFrms (pkt # pkts) =
     (case p_err pkt of
        Some err \<Rightarrow> Inr (Some err, h, nFrms)
      | None \<Rightarrow>
         (case put h pkt iB of
            Inl e \<Rightarrow> Inl e
          | Inr (h', m) \<Rightarrow>
             (let nFrms' = (if nFrms = - 1 then m else nFrms) in
              if m \<noteq> nFrms' then Inl Wilma
              else read_inputs h' iB nFrms' pkts)))"

text \<open>
  The loop of the \<^verbatim>\<open>MonoMode\<close> case, over the channel indices \<open>i\<close>.  The state is the
  processor's state, the heap and the two Blocks (input, output); on an error of
  \<^verbatim>\<open>Process\<close> the function returns at once.
\<close>

fun mono_loop ::
  "('a, 'p) processor \<Rightarrow> slice \<Rightarrow> slice \<Rightarrow> int \<Rightarrow> nat list \<Rightarrow>
     'p \<times> 'a heap \<times> Block \<times> Block \<Rightarrow>
     panic + (error option \<times> 'p \<times> 'a heap \<times> Block \<times> Block)" where
  "mono_loop P isl0 osl0 nFrms [] st = Inr (None, st)"
| "mono_loop P isl0 osl0 nFrms (i # is) (ps, h, iB, oB) =
     (let iStart = mul64 (int i) nFrms;
          iEnd = add64 iStart nFrms
      in case reslice isl0 iStart iEnd of
           Inl e \<Rightarrow> Inl e
         | Inr s1 \<Rightarrow>
            (let iB1 = iB\<lparr>Samples := s1\<rparr>;
                 oStart = mul64 (int i) nFrms;
                 oEnd = add64 oStart nFrms
             in case reslice osl0 oStart oEnd of
                  Inl e \<Rightarrow> Inl e
                | Inr s2 \<Rightarrow>
                   (let oB1 = oB\<lparr>Samples := s2\<rparr> in
                    case Process P ps h oB1 iB1 of
                      Inl e \<Rightarrow> Inl e
                    | Inr (Some err, ps', h', oB2, iB2) \<Rightarrow> Inr (Some err, ps', h', iB2, oB2)
                    | Inr (None, ps', h', oB2, iB2) \<Rightarrow>
                        mono_loop P isl0 osl0 nFrms is (ps', h', iB2, oB2))))"

text \<open>
  The \<^verbatim>\<open>switch proc.ChannelMode()\<close>.  In the \<^verbatim>\<open>MonoMode\<close> case the channel counts and
  sample slices are saved before the loop and written back after it.
\<close>

definition run_proc ::
  "('a, 'p) processor \<Rightarrow> 'p \<Rightarrow> 'a heap \<Rightarrow> Block \<Rightarrow> Block \<Rightarrow> int \<Rightarrow> int \<Rightarrow>
     panic + (error option \<times> 'p \<times> 'a heap \<times> Block \<times> Block)" where
  "run_proc P ps h iB oB iC nFrms =
     (let mode = ChannelMode P ps in
      if mode = MonoMode then
        (let ic = Channels iB; isl0 = Samples iB; oc = Channels oB; osl0 = Samples oB in
         case mono_loop P isl0 osl0 nFrms [0..<nat iC] (ps, h, iB, oB) of
           Inl e \<Rightarrow> Inl e
         | Inr (Some err, st) \<Rightarrow> Inr (Some err, st)
         | Inr (None, ps', h', iB', oB') \<Rightarrow>
             Inr (None, ps', h', iB'\<lparr>Channels := ic, Samples := isl0\<rparr>,
                                   oB'\<lparr>Channels := oc, Samples := osl0\<rparr>))
      else if mode = FullMode then
        (case Process P ps h oB iB of
           Inl e \<Rightarrow> Inl e
         | Inr (err, ps', h', oB', iB') \<Rightarrow> Inr (err, ps', h', iB', oB'))
      else Inl Wilma)"

text \<open>The loop that sends out the outputs: \<^verbatim>\<open>pkt.get(oBlock)\<close> for every output packet.\<close>

fun send_outputs ::
  "'a::zero heap \<Rightarrow> packet list \<Rightarrow> Block \<Rightarrow> nat list \<Rightarrow> panic + ('a heap \<times> packet list)" where
  "send_outputs h pkts oB [] = Inr (h, pkts)"
| "send_outputs h pkts oB (i # is) =
     (if length pkts \<le> i then Inl IndexOutOfRange
      else
        (case get h (pkts ! i) oB of
           Inl e \<Rightarrow> Inl e
         | Inr (h', pkt') \<Rightarrow> send_outputs h' (pkts[i := pkt']) oB is))"

text \<open>The loop that waits for the outputs, over the packets as received from \<^verbatim>\<open>odC\<close>.\<close>

fun await_outputs :: "packet list \<Rightarrow> error option" where
  "await_outputs [] = None"
| "await_outputs (pkt # pkts) =
     (case p_err pkt of Some err \<Rightarrow> Some err | None \<Rightarrow> await_outputs pkts)"

text \<open>
  One processing cycle, in four steps.  The Blocks and packets are reached through
  pointers, so what the cycle did to them before an error return stays in the node.

  First the frame counts are asked from the processor and the two Blocks are sized.
\<close>

definition size_blocks ::
  "('a::zero, 'p) processor \<Rightarrow> ('a, 'p, 'x) state \<Rightarrow> panic + (int \<times> ('a, 'p, 'x) state)" where
  "size_blocks P s =
     (let n = st_node s in
      case NextFrames P (proc n) of
        ((iFrms, oFrms), ps) \<Rightarrow>
          (case buffer (st_heap s) (Samples (iBlock n)) (fChannels (iForm n)) iFrms of
             Inl e \<Rightarrow> Inl e
           | Inr (h1, sl1) \<Rightarrow>
              (case buffer h1 (Samples (oBlock n)) (fChannels (oForm n)) oFrms of
                 Inl e \<Rightarrow> Inl e
               | Inr (h2, sl2) \<Rightarrow>
                   Inr (iFrms,
                        s\<lparr>st_heap := h2,
                          st_node := n\<lparr>iBlock := (iBlock n)\<lparr>Samples := sl1, Frames := iFrms\<rparr>,
                                       oBlock := (oBlock n)\<lparr>Samples := sl2, Frames := oFrms\<rparr>,
                                       proc := ps\<rparr>\<rparr>))))"

text \<open>
  Then every input is triggered, the workers answer, and the answers are read into
  \<^verbatim>\<open>iBlock\<close> in the order of their arrival; \<^verbatim>\<open>iBlock.Frames\<close> is set after the loop.
\<close>

definition read_phase ::
  "('a::zero, 'x) endpoints \<Rightarrow> int \<Rightarrow> ('a, 'p, 'x) state \<Rightarrow>
     panic + (error option \<times> int \<times> ('a, 'p, 'x) state)" where
  "read_phase E iFrms s =
     (let n = st_node s; k = length (ins n) in
      case trigger_inputs (st_heap s) (iPkts n) iFrms [0..<k] of
        Inl e \<Rightarrow> Inl e
      | Inr (h1, ip1) \<Rightarrow>
         (case workers E ip1 [0..<k] h1 (st_ext s) of
            Inl e \<Rightarrow> Inl e
          | Inr (ip2, h2, x1) \<Rightarrow>
             (case read_inputs h2 (iBlock n) (- 1)
                     (map (\<lambda>i. ip2 ! i) (sort_key (InDelay E x1) [0..<k])) of
                Inl e \<Rightarrow> Inl e
              | Inr (err, h3, nFrms) \<Rightarrow>
                 (if err \<noteq> None
                  then Inr (err, nFrms,
                            \<lparr>st_heap = h3, st_node = n\<lparr>iPkts := ip2\<rparr>, st_ext = x1\<rparr>)
                  else Inr (None, nFrms,
                            \<lparr>st_heap = h3,
                             st_node = n\<lparr>iPkts := ip2, iBlock := (iBlock n)\<lparr>Frames := nFrms\<rparr>\<rparr>,
                             st_ext = x1\<rparr>)))))"

text \<open>Then the processor runs on the node's Blocks.\<close>

definition proc_phase ::
  "('a, 'p) processor \<Rightarrow> int \<Rightarrow> ('a, 'p, 'x) state \<Rightarrow>
     panic + (error option \<times> ('a, 'p, 'x) state)" where
  "proc_phase P nFrms s =
     (let n = st_node s in
      case run_proc P (proc n) (st_heap s) (iBlock n) (oBlock n) (fChannels (iForm n)) nFrms of
        Inl e \<Rightarrow> Inl e
      | Inr (err, ps, h1, iB, oB) \<Rightarrow>
          Inr (err, s\<lparr>st_heap := h1, st_node := n\<lparr>iBlock := iB, oBlock := oB, proc := ps\<rparr>\<rparr>))"

text \<open>Last the outputs are gathered and sent, and the acknowledgements awaited.\<close>

definition write_phase ::
  "('a::zero, 'x) endpoints \<Rightarrow> ('a, 'p, 'x) state \<Rightarrow>
     panic + (error option \<times> ('a, 'p, 'x) state)" where
  "write_phase E s =
     (let n = st_node s; k = length (oPkts n) in
      case send_outputs (st_heap s) (oPkts n) (oBlock n) [0..<k] of
        Inl e \<Rightarrow> Inl e
      | Inr (h1, op1) \<Rightarrow>
         (case workers E op1 [0..<k] h1 (st_ext s) of
            Inl e \<Rightarrow> Inl e
          | Inr (op2, h2, x1) \<Rightarrow>
              Inr (await_outputs (map (\<lambda>i. op2 ! i) (sort_key (OutDelay E x1) [0..<k])),
                   \<lparr>st_heap = h2, st_node = n\<lparr>oPkts := op2\<rparr>, st_ext = x1\<rparr>)))"

definition process ::
  "('a::zero, 'p) processor \<Rightarrow> ('a, 'x) endpoints \<Rightarrow> ('a, 'p, 'x) state \<Rightarrow>
     panic + (error option \<times> ('a, 'p, 'x) state)" where
  "process P E s =
     (case size_blocks P s of
        Inl e \<Rightarrow> Inl e
      | Inr (iFrms, s1) \<Rightarrow>
         (case read_phase E iFrms s1 of
            Inl e \<Rightarrow> Inl e
          | Inr (err, nFrms, s2) \<Rightarrow>
             (if err \<noteq> None then Inr (err, s2)
              else
                (case proc_phase P nFrms s2 of
                   Inl e \<Rightarrow> Inl e
                 | Inr (err, s3) \<Rightarrow>
                    (if err \<noteq> None then Inr (err, s3)
                     else write_phase E s3)))))"

section \<open>Nodes: running (\<^verbatim>\<open>io.go\<close>, \<^verbatim>\<open>Run\<close>)\<close>

text \<open>
  What \<^verbatim>\<open>Run\<close> does to the world besides its result: the goroutines it starts and
  what it closes, in order.
\<close>

datatype effect = GoServe conn | CloseChan chan | CloseSink endpoint | CloseSource endpoint

text \<open>The method \<^verbatim>\<open>serve\<close> of a node starts one worker per connection.\<close>

definition node_serve :: "'p node \<Rightarrow> effect list" where
  "node_serve n = map GoServe (ins n) @ map GoServe (outs n)"

text \<open>The deferred function of \<^verbatim>\<open>Run\<close>; \<^verbatim>\<open>Close\<close> on a nil endpoint panics.\<close>

fun close_sinks :: "packet list \<Rightarrow> panic + effect list" where
  "close_sinks [] = Inr []"
| "close_sinks (pkt # pkts) =
     (case p_snk pkt of
        None \<Rightarrow> Inl NilDeref
      | Some k \<Rightarrow> (case close_sinks pkts of Inl e \<Rightarrow> Inl e | Inr es \<Rightarrow> Inr (CloseSink k # es)))"

fun close_sources :: "packet list \<Rightarrow> panic + effect list" where
  "close_sources [] = Inr []"
| "close_sources (pkt # pkts) =
     (case p_src pkt of
        None \<Rightarrow> Inl NilDeref
      | Some k \<Rightarrow> (case close_sources pkts of Inl e \<Rightarrow> Inl e | Inr es \<Rightarrow> Inr (CloseSource k # es)))"

definition deferred :: "'p node \<Rightarrow> panic + effect list" where
  "deferred n =
     (case close_sinks (oPkts n) of
        Inl e \<Rightarrow> Inl e
      | Inr es1 \<Rightarrow>
         (case close_sources (iPkts n) of
            Inl e \<Rightarrow> Inl e
          | Inr es2 \<Rightarrow> Inr (CloseChan DoneC # es1 @ es2)))"

text \<open>
  The \<^verbatim>\<open>for\<close> loop of \<^verbatim>\<open>Run\<close> over a cycle function.  The loop need not end: the
  result \<open>None\<close> means that it runs forever.
\<close>

partial_function (option) run_loop ::
  "('s \<Rightarrow> panic + (error option \<times> 's)) \<Rightarrow> 's \<Rightarrow> (panic + (error option \<times> 's)) option" where
  "run_loop cycle s =
     (case cycle s of
        Inl e \<Rightarrow> Some (Inl e)
      | Inr (err, s') \<Rightarrow>
          if err = Some EOF then Some (Inr (None, s'))
          else if err \<noteq> None then Some (Inr (err, s'))
          else run_loop cycle s')"

text \<open>
  \<^verbatim>\<open>Run\<close>: the connectivity check, the workers, the loop, and the deferred function
  on the way out.  The result carries the effects in the order they happened.  A panic
  aborts the program; the result is then the panic alone.
\<close>

definition Run ::
  "('a::zero, 'p) processor \<Rightarrow> ('a, 'x) endpoints \<Rightarrow> ('a, 'p, 'x) state \<Rightarrow>
     (panic + (error option \<times> effect list \<times> ('a, 'p, 'x) state)) option" where
  "Run P E s =
     (case checkConns (st_node s) of
        Some err \<Rightarrow>
          (case deferred (st_node s) of
             Inl e \<Rightarrow> Some (Inl e)
           | Inr es \<Rightarrow> Some (Inr (Some err, es, s)))
      | None \<Rightarrow>
          (case run_loop (process P E) s of
             None \<Rightarrow> None
           | Some (Inl e) \<Rightarrow> Some (Inl e)
           | Some (Inr (err, s')) \<Rightarrow>
               (case deferred (st_node s') of
                  Inl e \<Rightarrow> Some (Inl e)
                | Inr es \<Rightarrow> Some (Inr (err, node_serve (st_node s) @ es, s')))))"

section \<open>The processors of \<^verbatim>\<open>proc.go\<close>\<close>

text \<open>
  The struct \<^verbatim>\<open>proc\<close> implements \<^verbatim>\<open>Processor\<close>: a channel mode, fixed frame counts and
  a processing function.  A processing function receives the two Block pointers and the
  heap.  \<^verbatim>\<open>PassThrough\<close> copies the frames of the source Block to the destination Block.
  (\<^verbatim>\<open>ToMono\<close> averages floating-point samples and is left out.)
\<close>

record 'a proc_struct =
  mode :: int
  inFrames :: int
  outFrames :: int
  procFunc :: "'a heap \<Rightarrow> Block \<Rightarrow> Block \<Rightarrow> panic + (error option \<times> 'a heap \<times> Block \<times> Block)"

definition DefaultInFrames :: int where "DefaultInFrames = 1024"

definition DefaultOutFrames :: int where "DefaultOutFrames = 1024"

definition NewProcessorFrames ::
  "int \<Rightarrow> ('a heap \<Rightarrow> Block \<Rightarrow> Block \<Rightarrow> panic + (error option \<times> 'a heap \<times> Block \<times> Block)) \<Rightarrow>
     int \<Rightarrow> int \<Rightarrow> 'a proc_struct" where
  "NewProcessorFrames md fn ifrms ofrms =
     \<lparr>mode = md, inFrames = ifrms, outFrames = ofrms, procFunc = fn\<rparr>"

definition NewProcessor ::
  "int \<Rightarrow> ('a heap \<Rightarrow> Block \<Rightarrow> Block \<Rightarrow> panic + (error option \<times> 'a heap \<times> Block \<times> Block)) \<Rightarrow>
     'a proc_struct" where
  "NewProcessor md fn = NewProcessorFrames md fn DefaultInFrames DefaultOutFrames"

text \<open>The methods \<^verbatim>\<open>ChannelMode\<close>, \<^verbatim>\<open>NextFrames\<close> and \<^verbatim>\<open>Process\<close> of \<^verbatim>\<open>*proc\<close>.\<close>

definition proc_methods :: "('a, 'a proc_struct) processor" where
  "proc_methods =
     \<lparr>ChannelMode = (\<lambda>p. mode p),
      NextFrames = (\<lambda>p. ((inFrames p, outFrames p), p)),
      Process = (\<lambda>p h dst src.
         case procFunc p h dst src of
           Inl e \<Rightarrow> Inl e
         | Inr (err, h', dst', src') \<Rightarrow> Inr (err, p, h', dst', src'))\<rparr>"

definition PassThrough_func ::
  "'a heap \<Rightarrow> Block \<Rightarrow> Block \<Rightarrow> panic + (error option \<times> 'a heap \<times> Block \<times> Block)" where
  "PassThrough_func h dst src =
     (let N = Frames src in
      case reslice (Samples dst) 0 N of
        Inl e \<Rightarrow> Inl e
      | Inr d \<Rightarrow>
         (case reslice (Samples src) 0 N of
            Inl e \<Rightarrow> Inl e
          | Inr s \<Rightarrow> Inr (None, copy h d s, dst\<lparr>Frames := N\<rparr>, src)))"

definition PassThrough :: "'a proc_struct" where
  "PassThrough = NewProcessor MonoMode PassThrough_func"

section \<open>Notions used to state the properties\<close>

text \<open>
  The specification states the capacity of a grown buffer as the ceiling of \<open>5N/3\<close>.
  This is that number, for comparison with what \<^verbatim>\<open>buffer\<close> allocates.
\<close>

definition spec_capacity :: "int \<Rightarrow> int" where
  "spec_capacity N = - ((- (5 * N)) div 3)"

text \<open>
  The frame-run of channel \<open>c\<close> in a deinterleaved buffer of \<open>f\<close> frames per channel:
  the \<open>f\<close> samples from position \<open>c * f\<close> of the slice.
\<close>

definition frame_run :: "'a heap \<Rightarrow> slice \<Rightarrow> nat \<Rightarrow> nat \<Rightarrow> 'a list" where
  "frame_run h s c f = take f (drop (off s + c * f) (h ! base s))"

text \<open>The first \<open>k\<close> elements within the capacity of a slice lie inside the heap.\<close>

definition region_ok :: "'a heap \<Rightarrow> slice \<Rightarrow> nat \<Rightarrow> bool" where
  "region_ok h s k \<longleftrightarrow>
     k \<le> cap s \<and> (0 < k \<longrightarrow> base s < length h \<and> off s + k \<le> length (h ! base s))"

text \<open>
  The state reached from \<open>s\<close> by \<open>k\<close> cycles that each returned a nil error, if the
  first \<open>k\<close> cycles do so.
\<close>

fun nil_cycles :: "('s \<Rightarrow> panic + (error option \<times> 's)) \<Rightarrow> nat \<Rightarrow> 's \<Rightarrow> 's option" where
  "nil_cycles cycle 0 s = Some s"
| "nil_cycles cycle (Suc k) s =
     (case cycle s of
        Inl e \<Rightarrow> None
      | Inr (err, s') \<Rightarrow> (if err = None then nil_cycles cycle k s' else None))"

text \<open>
  Every connection has its packet slot, every input packet its source and every output
  packet its sink.
\<close>

definition wired :: "'p node \<Rightarrow> bool" where
  "wired n \<longleftrightarrow>
     length (ins n) = length (iPkts n) \<and> length (outs n) = length (oPkts n) \<and>
     (\<forall>p\<in>set (iPkts n). p_src p \<noteq> None) \<and> (\<forall>p\<in>set (oPkts n). p_snk p \<noteq> None)"

text \<open>
  The methods of a node that a program calls once the node is made, and a sequence of
  such calls, each made on the state that the call before it left.  A call that returns
  an error is followed by the next call; a panic ends the sequence, and so does a
  \<^verbatim>\<open>Run\<close> that never returns.  A call of \<^verbatim>\<open>Output\<close> comes with the pair of endpoints that
  \<^verbatim>\<open>sound.Pipe\<close> gives it.
\<close>

datatype call =
    SetInputCall endpoint "int list"
  | AddOutputCall endpoint "int list"
  | OutputCall "form \<Rightarrow> endpoint \<times> endpoint" "int list"
  | RunCall

fun do_call ::
  "('a::zero, 'p) processor \<Rightarrow> ('a, 'x) endpoints \<Rightarrow> ('a, 'p, 'x) state \<Rightarrow> call \<Rightarrow>
     (panic + ('a, 'p, 'x) state) option" where
  "do_call P E s (SetInputCall src cs) =
     (case SetInput (st_node s) src cs of
        Inl e \<Rightarrow> Some (Inl e)
      | Inr (err, n') \<Rightarrow> Some (Inr (s\<lparr>st_node := n'\<rparr>)))"
| "do_call P E s (AddOutputCall d cs) =
     (case AddOutput (st_node s) d cs of
        Inl e \<Rightarrow> Some (Inl e)
      | Inr (err, n') \<Rightarrow> Some (Inr (s\<lparr>st_node := n'\<rparr>)))"
| "do_call P E s (OutputCall Pipe cs) =
     (case Output Pipe (st_node s) cs of
        Inl e \<Rightarrow> Some (Inl e)
      | Inr (src, n') \<Rightarrow> Some (Inr (s\<lparr>st_node := n'\<rparr>)))"
| "do_call P E s RunCall =
     (case Run P E s of
        None \<Rightarrow> None
      | Some (Inl e) \<Rightarrow> Some (Inl e)
      | Some (Inr (err, effs, s')) \<Rightarrow> Some (Inr s'))"

fun do_calls ::
  "('a::zero, 'p) processor \<Rightarrow> ('a, 'x) endpoints \<Rightarrow> ('a, 'p, 'x) state \<Rightarrow> call list \<Rightarrow>
     (panic + ('a, 'p, 'x) state) option" where
  "do_calls P E s [] = Some (Inr s)"
| "do_calls P E s (c # cl) =
     (case do_call P E s c of
        None \<Rightarrow> None
      | Some (Inl e) \<Rightarrow> Some (Inl e)
      | Some (Inr s') \<Rightarrow> do_calls P E s' cl)"

text \<open>
  The node \<open>n'\<close> has the input form and the number of input claim counters of \<open>n\<close>, and
  every counter that is positive in \<open>n\<close> is positive in \<open>n'\<close>.
\<close>

definition keeps_claims :: "'p node \<Rightarrow> 'p node \<Rightarrow> bool" where
  "keeps_claims n n' \<longleftrightarrow>
     iForm n' = iForm n \<and> length (icCounts n') = length (icCounts n) \<and>
     (\<forall>k<length (icCounts n). 0 < icCounts n ! k \<longrightarrow> 0 < icCounts n' ! k)"

section \<open>Processors and endpoints for the examples\<close>

text \<open>
  A \<^verbatim>\<open>MonoMode\<close> processor of two frames per block that does nothing but keep, in its
  own state, the two Blocks it was called with, as they were at each call.
\<close>

definition recorder :: "('a, (Block \<times> Block) list) processor" where
  "recorder =
     \<lparr>ChannelMode = (\<lambda>calls. MonoMode),
      NextFrames = (\<lambda>calls. ((2, 2), calls)),
      Process = (\<lambda>calls h dst src. Inr (None, calls @ [(dst, src)], h, dst, src))\<rparr>"

text \<open>
  A source that delivers two frames (the samples 5 and 6) on the first \<^verbatim>\<open>Receive\<close> and
  \<^verbatim>\<open>io.EOF\<close> afterwards, with a sink that accepts everything; responses arrive in the
  order of the requests.  The outside state counts the calls of \<^verbatim>\<open>Receive\<close>.
\<close>

definition bounded_source :: "(int, nat) endpoints" where
  "bounded_source =
     \<lparr>Receive = (\<lambda>ep sl h x.
         if x = 0
         then ((2, None),
               h[base sl := take (off sl) (h ! base sl) @ [5, 6] @ drop (off sl + 2) (h ! base sl)],
               Suc x)
         else ((0, Some EOF), h, Suc x)),
      Send = (\<lambda>ep sl h x. (None, x)),
      InDelay = (\<lambda>x i. i),
      OutDelay = (\<lambda>x i. i)\<rparr>"

definition mono_form :: form where "mono_form = \<lparr>fSampleRate = 44100, fChannels = 1\<rparr>"

definition stereo_form :: form where "stereo_form = \<lparr>fSampleRate = 44100, fChannels = 2\<rparr>"

section \<open>Channel maps: the tables built by \<^verbatim>\<open>newCmap\<close>\<close>

text \<open>
  The filling loop, started at index \<open>k\<close> on tables \<open>res\<close>: when every selected channel
  is in range it does not panic, it writes the selection into the inverse table from
  position \<open>k\<close> on, leaves the forward entries of unselected channels alone, and the
  forward entry of a selected channel is the index of its last occurrence.
\<close>

lemma cmap_fill_spec:
  "\<forall>c\<in>set cs. 0 \<le> c \<and> c < int (length (cmap_m res)) \<Longrightarrow>
   length (cmap_i res) = k + length cs \<Longrightarrow>
   \<exists>cm. cmap_fill cs k res = Inr cm \<and>
        length (cmap_m cm) = length (cmap_m res) \<and>
        cmap_i cm = take k (cmap_i res) @ cs \<and>
        (\<forall>c<length (cmap_m res). int c \<notin> set cs \<longrightarrow> cmap_m cm ! c = cmap_m res ! c) \<and>
        (\<forall>j<length cs. (\<forall>j'. j < j' \<and> j' < length cs \<longrightarrow> cs ! j' \<noteq> cs ! j) \<longrightarrow>
             cmap_m cm ! nat (cs ! j) = int (k + j))"
proof (induction cs arbitrary: k res)
  case Nil
  then show ?case by simp
next
  case (Cons c cs)
  let ?res = "res\<lparr>cmap_m := (cmap_m res)[nat c := int k], cmap_i := (cmap_i res)[k := c]\<rparr>"
  from Cons.prems have rng: "0 \<le> c" "c < int (length (cmap_m res))" by auto
  have p1: "\<forall>c\<in>set cs. 0 \<le> c \<and> c < int (length (cmap_m ?res))" using Cons.prems by auto
  have p2: "length (cmap_i ?res) = Suc k + length cs" using Cons.prems by simp
  from Cons.IH[OF p1 p2] obtain cm where
    cm: "cmap_fill cs (Suc k) ?res = Inr cm"
    and lm: "length (cmap_m cm) = length (cmap_m ?res)"
    and ci: "cmap_i cm = take (Suc k) (cmap_i ?res) @ cs"
    and un: "\<forall>c<length (cmap_m ?res). int c \<notin> set cs \<longrightarrow> cmap_m cm ! c = cmap_m ?res ! c"
    and la: "\<forall>j<length cs. (\<forall>j'. j < j' \<and> j' < length cs \<longrightarrow> cs ! j' \<noteq> cs ! j) \<longrightarrow>
             cmap_m cm ! nat (cs ! j) = int (Suc k + j)"
    by blast
  have e: "cmap_fill (c # cs) k res = Inr cm" using rng cm by simp
  have klt: "k < length (cmap_i res)" using Cons.prems by simp
  have i': "cmap_i cm = take k (cmap_i res) @ c # cs"
    using ci klt by (simp add: take_Suc_conv_app_nth)
  have u': "\<forall>d<length (cmap_m res). int d \<notin> set (c # cs) \<longrightarrow> cmap_m cm ! d = cmap_m res ! d"
  proof (intro allI impI)
    fix d assume d: "d < length (cmap_m res)" and nd: "int d \<notin> set (c # cs)"
    then have "cmap_m cm ! d = cmap_m ?res ! d" using un by simp
    moreover have "d \<noteq> nat c" using nd rng by auto
    ultimately show "cmap_m cm ! d = cmap_m res ! d" by simp
  qed
  have l': "\<forall>j<length (c # cs). (\<forall>j'. j < j' \<and> j' < length (c # cs) \<longrightarrow> (c # cs) ! j' \<noteq> (c # cs) ! j) \<longrightarrow>
             cmap_m cm ! nat ((c # cs) ! j) = int (k + j)"
  proof (intro allI impI)
    fix j assume j: "j < length (c # cs)"
      and last: "\<forall>j'. j < j' \<and> j' < length (c # cs) \<longrightarrow> (c # cs) ! j' \<noteq> (c # cs) ! j"
    show "cmap_m cm ! nat ((c # cs) ! j) = int (k + j)"
    proof (cases j)
      case 0
      have "c \<notin> set cs"
      proof
        assume "c \<in> set cs"
        then obtain q where "q < length cs" "cs ! q = c" by (auto simp: in_set_conv_nth)
        then show False using last 0 by (auto dest: spec[where x="Suc q"])
      qed
      then have "int (nat c) \<notin> set cs" using rng by simp
      moreover have "nat c < length (cmap_m ?res)" using rng by simp
      ultimately have "cmap_m cm ! nat c = cmap_m ?res ! nat c" using un by blast
      then show ?thesis using 0 rng by simp
    next
      case (Suc q)
      then have q: "q < length cs" using j by simp
      have "\<forall>j'. q < j' \<and> j' < length cs \<longrightarrow> cs ! j' \<noteq> cs ! q"
      proof (intro allI impI)
        fix j' assume "q < j' \<and> j' < length cs"
        then show "cs ! j' \<noteq> cs ! q" using last Suc by (auto dest: spec[where x="Suc j'"])
      qed
      then have "cmap_m cm ! nat (cs ! q) = int (Suc k + q)" using la q by blast
      then show ?thesis using Suc by simp
    qed
  qed
  show ?case using e lm i' u' l' by simp
qed

text \<open>The two cases of \<^verbatim>\<open>newCmap\<close>, as used below for packets too.\<close>

lemma newCmap_identity:
  "0 \<le> fChannels v \<Longrightarrow>
   newCmap v [] = Inr \<lparr>cmap_m = map int [0..<nat (fChannels v)],
                       cmap_i = map int [0..<nat (fChannels v)]\<rparr>"
  by (simp add: newCmap_def Let_def)

lemma newCmap_selection:
  assumes n0: "0 \<le> fChannels v" and ne: "cs \<noteq> []"
    and rg: "\<forall>c\<in>set cs. 0 \<le> c \<and> c < fChannels v"
  shows "\<exists>cm. newCmap v cs = Inr cm \<and>
              cmap_i cm = cs \<and>
              length (cmap_m cm) = nat (fChannels v) \<and>
              (\<forall>c<nat (fChannels v). int c \<notin> set cs \<longrightarrow> cmap_m cm ! c = - 1) \<and>
              (\<forall>k<length cs. (\<forall>j. k < j \<and> j < length cs \<longrightarrow> cs ! j \<noteq> cs ! k) \<longrightarrow>
                   cmap_m cm ! nat (cs ! k) = int k)"
proof -
  let ?res = "\<lparr>cmap_m = replicate (nat (fChannels v)) (- 1), cmap_i = replicate (length cs) (- 1)\<rparr>"
  have r: "\<forall>c\<in>set cs. 0 \<le> c \<and> c < int (length (cmap_m ?res))" using rg n0 by auto
  have l: "length (cmap_i ?res) = 0 + length cs" by simp
  from cmap_fill_spec[OF r l] obtain cm where
    cm: "cmap_fill cs 0 ?res = Inr cm"
    and lm: "length (cmap_m cm) = length (cmap_m ?res)"
    and ci: "cmap_i cm = take 0 (cmap_i ?res) @ cs"
    and un: "\<forall>c<length (cmap_m ?res). int c \<notin> set cs \<longrightarrow> cmap_m cm ! c = cmap_m ?res ! c"
    and la: "\<forall>j<length cs. (\<forall>j'. j < j' \<and> j' < length cs \<longrightarrow> cs ! j' \<noteq> cs ! j) \<longrightarrow>
             cmap_m cm ! nat (cs ! j) = int (0 + j)"
    by blast
  have "newCmap v cs = Inr cm" using ne n0 cm by (simp add: newCmap_def Let_def)
  moreover have "cmap_i cm = cs" using ci by simp
  moreover have "length (cmap_m cm) = nat (fChannels v)" using lm by simp
  moreover have "\<forall>c<nat (fChannels v). int c \<notin> set cs \<longrightarrow> cmap_m cm ! c = - 1"
    using un by simp
  moreover have "\<forall>k<length cs. (\<forall>j. k < j \<and> j < length cs \<longrightarrow> cs ! j \<noteq> cs ! k) \<longrightarrow>
                       cmap_m cm ! nat (cs ! k) = int k"
    using la by simp
  ultimately show ?thesis by blast
qed

text \<open>
  Claim C9.  For a node channel count \<open>n \<ge> 0\<close>: with an empty selection both tables are
  the identity of length \<open>n\<close>; with a non-empty selection \<open>cs\<close> of channels in \<open>[0, n)\<close>
  the inverse table is \<open>cs\<close> itself (length \<open>L\<close>, \<open>inverse[i] = cs[i]\<close>), the forward
  table has length \<open>n\<close>, every channel that does not occur in \<open>cs\<close> is unmapped (\<open>-1\<close>),
  and \<open>forward[cs[k]] = k\<close> for the last occurrence \<open>k\<close> of each selected channel.
\<close>

theorem newCmap_tables:
  assumes n0: "0 \<le> fChannels v"
  shows "newCmap v [] = Inr \<lparr>cmap_m = map int [0..<nat (fChannels v)],
                             cmap_i = map int [0..<nat (fChannels v)]\<rparr> \<and>
         (cs \<noteq> [] \<and> (\<forall>c\<in>set cs. 0 \<le> c \<and> c < fChannels v) \<longrightarrow>
            (\<exists>cm. newCmap v cs = Inr cm \<and>
                  cmap_i cm = cs \<and>
                  length (cmap_m cm) = nat (fChannels v) \<and>
                  (\<forall>c<nat (fChannels v). int c \<notin> set cs \<longrightarrow> cmap_m cm ! c = - 1) \<and>
                  (\<forall>k<length cs. (\<forall>j. k < j \<and> j < length cs \<longrightarrow> cs ! j \<noteq> cs ! k) \<longrightarrow>
                       cmap_m cm ! nat (cs ! k) = int k)))"
  using newCmap_identity[OF n0] newCmap_selection[OF n0, of cs] by blast

text \<open>The claim at a three-channel form, with the selection \<open>[2, 0, 2]\<close>.\<close>

theorem newCmap_tables_witness:
  "newCmap \<lparr>fSampleRate = 44100, fChannels = 3\<rparr> [] = Inr \<lparr>cmap_m = [0, 1, 2], cmap_i = [0, 1, 2]\<rparr> \<and>
   (\<exists>cm. newCmap \<lparr>fSampleRate = 44100, fChannels = 3\<rparr> [2, 0, 2] = Inr cm \<and>
         cmap_i cm = [2, 0, 2] \<and> length (cmap_m cm) = 3 \<and>
         cmap_m cm ! 1 = - 1 \<and> cmap_m cm ! 0 = 1 \<and> cmap_m cm ! 2 = 2)"
proof -
  let ?v = "\<lparr>fSampleRate = 44100, fChannels = 3\<rparr>"
  have h0: "0 \<le> fChannels ?v" by simp
  have h1: "[2, 0, 2::int] \<noteq> [] \<and> (\<forall>c\<in>set [2, 0, 2]. 0 \<le> c \<and> c < fChannels ?v)" by simp
  from newCmap_tables[OF h0, of "[2, 0, 2]"] h1 obtain cm where
    id: "newCmap ?v [] = Inr \<lparr>cmap_m = map int [0..<nat (fChannels ?v)],
                             cmap_i = map int [0..<nat (fChannels ?v)]\<rparr>"
    and cm: "newCmap ?v [2, 0, 2] = Inr cm" "cmap_i cm = [2, 0, 2]"
       "length (cmap_m cm) = nat (fChannels ?v)"
    and un: "\<forall>c<nat (fChannels ?v). int c \<notin> set [2, 0, 2] \<longrightarrow> cmap_m cm ! c = - 1"
    and la: "\<forall>k<length [2, 0, 2::int]. (\<forall>j. k < j \<and> j < length [2, 0, 2::int] \<longrightarrow> [2, 0, 2::int] ! j \<noteq> [2, 0, 2] ! k) \<longrightarrow>
                       cmap_m cm ! nat ([2, 0, 2] ! k) = int k"
    by blast
  have u1: "cmap_m cm ! 1 = - 1" using un[rule_format, of 1] by simp
  have nth: "\<And>j. j < 3 \<Longrightarrow> j = 0 \<or> j = 1 \<or> j = (2::nat)" by arith
  have l1: "cmap_m cm ! 0 = 1" using la[rule_format, of 1] by (auto simp: nth_Cons' )
  have l2: "cmap_m cm ! 2 = 2" using la[rule_format, of 2] by simp
  have up: "[0..<3] = [0, 1, 2]" by (simp add: upt_rec)
  show ?thesis using id cm u1 l1 l2 by (simp add: up)
qed

section \<open>Machine arithmetic and slices: helper facts\<close>

text \<open>Inside the 64-bit range the wrapped operations are the mathematical ones.\<close>

lemma wrap64_id: "- (2 ^ 63) \<le> x \<Longrightarrow> x < 2 ^ 63 \<Longrightarrow> wrap64 x = x"
  unfolding wrap64_def by (simp add: mod_pos_pos_trivial)

lemma mul64_id: "- (2 ^ 63) \<le> a * b \<Longrightarrow> a * b < 2 ^ 63 \<Longrightarrow> mul64 a b = a * b"
  by (simp add: mul64_def wrap64_id)

lemma add64_id: "- (2 ^ 63) \<le> a + b \<Longrightarrow> a + b < 2 ^ 63 \<Longrightarrow> add64 a b = a + b"
  by (simp add: add64_def wrap64_id)

lemma sdiv_nonneg: "0 \<le> a \<Longrightarrow> 0 < b \<Longrightarrow> (a::int) sdiv b = a div b"
  by (simp add: signed_divide_int_def sgn_if)

lemma reslice_prefix: "0 \<le> N \<Longrightarrow> N \<le> int (cap d) \<Longrightarrow> reslice d 0 N = Inr (d\<lparr>len := nat N\<rparr>)"
  by (simp add: reslice_def)

text \<open>The index lists of one and two iterations.\<close>

lemma upt_one: "[0..<Suc 0] = [0]" by simp

lemma upt_two: "[0..<Suc (Suc 0)] = [0, Suc 0]" by (simp add: upt_rec)

section \<open>The buffer growth policy\<close>

text \<open>The two branches of \<^verbatim>\<open>buffer\<close>, for a product \<open>c * f\<close> that does not wrap.\<close>

lemma buffer_keep:
  assumes "0 \<le> c * f" "c * f < 2 ^ 63" "c * f \<le> int (cap d)"
  shows "buffer h d c f = Inr (h, d\<lparr>len := nat (c * f)\<rparr>)"
proof -
  have m: "mul64 c f = c * f" using assms by (simp add: mul64_id)
  show ?thesis using assms by (simp add: buffer_def m Let_def reslice_prefix)
qed

lemma buffer_grow:
  assumes v: "valid_slice h d" and n0: "0 \<le> c * f" and n5: "5 * (c * f) < 2 ^ 63"
    and lt: "int (cap d) < c * f"
  shows "buffer h d c f =
           Inr (h @ [contents h d @ replicate (nat (5 * (c * f) div 3) - len d) 0],
                \<lparr>base = length h, off = 0, len = nat (c * f), cap = nat (5 * (c * f) div 3)\<rparr>)"
proof -
  let ?N = "c * f"
  let ?M = "5 * ?N div 3"
  have m: "mul64 c f = ?N" using n0 n5 by (simp add: mul64_id)
  have m5: "mul64 5 ?N = 5 * ?N" using n0 n5 by (simp add: mul64_id)
  have sd: "(5 * ?N) sdiv 3 = ?M" using n0 by (simp add: sdiv_nonneg)
  have M0: "0 \<le> ?M" using n0 by simp
  have NM: "?N \<le> ?M" using n0 by linarith
  have ld: "len d \<le> cap d" using v by (simp add: valid_slice_def)
  have ldM: "int (len d) < ?M" using ld lt NM by linarith
  let ?h1 = "h @ [replicate (nat ?M) (0::'a)]"
  let ?tmp = "\<lparr>base = length h, off = 0, len = nat ?M, cap = nat ?M\<rparr>"
  have mk: "make_slice h ?M = Inr (?h1, ?tmp)" using M0 by (simp add: make_slice_def)
  have rs: "reslice ?tmp 0 ?N = Inr \<lparr>base = length h, off = 0, len = nat ?N, cap = nat ?M\<rparr>"
    using n0 NM by (simp add: reslice_def)
  have cp: "copy ?h1 ?tmp d = h @ [contents h d @ replicate (nat ?M - len d) 0]"
  proof (cases "len d = 0")
    case True
    then show ?thesis by (simp add: copy_def contents_def)
  next
    case False
    then have "cap d \<noteq> 0" using ld by simp
    then have b: "base d < length h" using v by (simp add: valid_slice_def)
    have k: "min (nat ?M) (len d) = len d" using ldM by simp
    show ?thesis using False b k
      by (simp add: copy_def contents_def Let_def nth_append)
  qed
  show ?thesis
    using lt by (simp add: buffer_def m m5 sd mk rs cp Let_def)
qed

text \<open>
  Claim C8, as the code has it.  For a buffer \<open>d\<close> lying in the heap and a required
  count \<open>N = c * f \<ge> 0\<close> with \<open>5N\<close> below \<open>2^63\<close>: if \<open>cap(d) \<ge> N\<close>, \<^verbatim>\<open>buffer\<close> returns \<open>d\<close>
  resliced to exactly \<open>N\<close> elements and the heap is unchanged (no allocation); if
  \<open>cap(d) < N\<close>, it allocates one new array of \<open>(5N) div 3\<close> elements (rounded down, not
  up), whose first \<open>len(d)\<close> elements are the elements of \<open>d\<close> and whose other elements
  are zero, and returns a view of exactly \<open>N\<close> elements of it; calling \<^verbatim>\<open>buffer\<close> again
  on the result with the same \<open>N\<close> allocates nothing and returns the same slice.
\<close>

theorem buffer_growth:
  assumes v: "valid_slice h d" and n0: "0 \<le> c * f" and n5: "5 * (c * f) < 2 ^ 63"
  shows "(c * f \<le> int (cap d) \<longrightarrow> buffer h d c f = Inr (h, d\<lparr>len := nat (c * f)\<rparr>)) \<and>
         (int (cap d) < c * f \<longrightarrow>
            (\<exists>h' d'. buffer h d c f = Inr (h', d') \<and>
                      h' = h @ [contents h d @ replicate (nat (5 * (c * f) div 3) - len d) 0] \<and>
                      d' = \<lparr>base = length h, off = 0, len = nat (c * f),
                            cap = nat (5 * (c * f) div 3)\<rparr> \<and>
                      buffer h' d' c f = Inr (h', d')))"
proof (intro conjI impI)
  assume "c * f \<le> int (cap d)"
  then show "buffer h d c f = Inr (h, d\<lparr>len := nat (c * f)\<rparr>)"
    using n0 n5 by (intro buffer_keep) auto
next
  assume lt: "int (cap d) < c * f"
  let ?h' = "h @ [contents h d @ replicate (nat (5 * (c * f) div 3) - len d) 0]"
  let ?d' = "\<lparr>base = length h, off = 0, len = nat (c * f), cap = nat (5 * (c * f) div 3)\<rparr>"
  have g: "buffer h d c f = Inr (?h', ?d')" by (rule buffer_grow[OF v n0 n5 lt])
  have "c * f \<le> int (cap ?d')" using n0 by simp linarith
  then have "buffer ?h' ?d' c f = Inr (?h', ?d'\<lparr>len := nat (c * f)\<rparr>)"
    using n0 n5 by (intro buffer_keep) auto
  then have "buffer ?h' ?d' c f = Inr (?h', ?d')" by simp
  with g show "\<exists>h' d'. buffer h d c f = Inr (h', d') \<and> h' = ?h' \<and> d' = ?d' \<and>
                      buffer h' d' c f = Inr (h', d')" by blast
qed

text \<open>
  The capacity is not the ceiling of \<open>5N/3\<close>: growing the nil slice to one element
  allocates one element, where the ceiling is two.
\<close>

theorem buffer_capacity_counterexample:
  "buffer ([] :: int list list) nil_slice 1 1 =
     Inr ([[0]], \<lparr>base = 0, off = 0, len = 1, cap = 1\<rparr>) \<and>
   int (cap \<lparr>base = 0, off = 0, len = 1, cap = 1\<rparr>) \<noteq> spec_capacity 1"
  by (simp add: buffer_def mul64_def wrap64_def make_slice_def reslice_def copy_def nil_slice_def
      signed_divide_int_def spec_capacity_def Let_def)

text \<open>
  The theorem on a three-element array: a request for three elements keeps the array,
  a request for four allocates six and keeps the two elements of the slice, and a
  second request for four allocates nothing.
\<close>

theorem buffer_growth_witness:
  "buffer ([[7, 8, 9]] :: int list list) \<lparr>base = 0, off = 0, len = 2, cap = 3\<rparr> 3 1 =
     Inr ([[7, 8, 9]], \<lparr>base = 0, off = 0, len = 3, cap = 3\<rparr>) \<and>
   buffer ([[7, 8, 9]] :: int list list) \<lparr>base = 0, off = 0, len = 2, cap = 3\<rparr> 2 2 =
     Inr ([[7, 8, 9], [7, 8, 0, 0, 0, 0]], \<lparr>base = 1, off = 0, len = 4, cap = 6\<rparr>) \<and>
   buffer ([[7, 8, 9], [7, 8, 0, 0, 0, 0]] :: int list list) \<lparr>base = 1, off = 0, len = 4, cap = 6\<rparr> 2 2 =
     Inr ([[7, 8, 9], [7, 8, 0, 0, 0, 0]], \<lparr>base = 1, off = 0, len = 4, cap = 6\<rparr>)"
proof -
  let ?h = "[[7, 8, 9]] :: int list list"
  let ?d = "\<lparr>base = 0, off = 0, len = 2, cap = 3\<rparr>"
  have v: "valid_slice ?h ?d" by (simp add: valid_slice_def)
  have a: "(0::int) \<le> 3 * 1" "5 * ((3::int) * 1) < 2 ^ 63" by simp_all
  have b: "(0::int) \<le> 2 * 2" "5 * ((2::int) * 2) < 2 ^ 63" by simp_all
  have c: "contents ?h ?d = [7, 8]" by (simp add: contents_def)
  have r: "replicate 4 (0::int) = [0, 0, 0, 0]" by (simp add: numeral_eq_Suc)
  from buffer_growth[OF v a] buffer_growth[OF v b] show ?thesis
    by (simp add: c r)
qed

section \<open>Wiring: the claim counters\<close>

text \<open>
  Claim C7.  \<^verbatim>\<open>AddOutput\<close> increments the counters of the selected channels only, but
  \<^verbatim>\<open>Output\<close> increments every output counter whether or not a selection is given: both
  branches of its \<^verbatim>\<open>if\<close> run the same loop over all counters.  On a fresh node with two
  output channels, \<^verbatim>\<open>Output(0)\<close> leaves the counters at \<open>[1, 1]\<close>, where
  \<^verbatim>\<open>AddOutput(d, 0)\<close> leaves them at \<open>[1, 0]\<close>.
\<close>

theorem Output_selection_counters:
  "(case New stereo_form stereo_form PassThrough of
      Inl e \<Rightarrow> []
    | Inr n \<Rightarrow>
       (case Output (\<lambda>v. (\<lparr>eForm = v, eId = 0\<rparr>, \<lparr>eForm = v, eId = 1\<rparr>)) n [0] of
          Inl e \<Rightarrow> []
        | Inr (src, n') \<Rightarrow> ocCounts n')) = [1, 1] \<and>
   (case New stereo_form stereo_form PassThrough of
      Inl e \<Rightarrow> []
    | Inr n \<Rightarrow>
       (case AddOutput n \<lparr>eForm = mono_form, eId = 0\<rparr> [0] of
          Inl e \<Rightarrow> []
        | Inr (err, n') \<Rightarrow> ocCounts n')) = [1, 0]"
  by (simp add: New_def Output_def AddOutput_def incr_all_def add64_def wrap64_def init_def
      newCmap_def reslice_def zero_packet_def nil_slice_def newConn_def stereo_form_def
      mono_form_def Let_def numeral_2_eq_2)

text \<open>
  In general: a successful \<^verbatim>\<open>AddOutput\<close> increments every counter once when no
  selection is given and otherwise each counter once per occurrence of its channel in
  the selection; a successful \<^verbatim>\<open>Output\<close> increments every counter once, whatever the
  selection.
\<close>

lemma incr_each_counts:
  "\<forall>c\<in>set cs. 0 \<le> c \<and> c < int (length cts) \<Longrightarrow>
   \<exists>cts'. incr_each cts cs = Inr cts' \<and> length cts' = length cts \<and>
          (\<forall>k<length cts. cts' ! k = ((\<lambda>ct. add64 ct 1) ^^ count_list cs (int k)) (cts ! k))"
proof (induction cs arbitrary: cts)
  case Nil
  then show ?case by simp
next
  case (Cons c cs)
  let ?cts = "cts[nat c := add64 (cts ! nat c) 1]"
  from Cons.prems have rng: "0 \<le> c" "c < int (length cts)" by auto
  have "\<forall>c\<in>set cs. 0 \<le> c \<and> c < int (length ?cts)" using Cons.prems by simp
  from Cons.IH[OF this] obtain cts' where
    r: "incr_each ?cts cs = Inr cts'" and l: "length cts' = length ?cts"
    and v: "\<forall>k<length ?cts. cts' ! k = ((\<lambda>ct. add64 ct 1) ^^ count_list cs (int k)) (?cts ! k)"
    by blast
  have e: "incr_each cts (c # cs) = Inr cts'" using rng r by simp
  have "\<forall>k<length cts. cts' ! k = ((\<lambda>ct. add64 ct 1) ^^ count_list (c # cs) (int k)) (cts ! k)"
  proof (intro allI impI)
    fix k assume k: "k < length cts"
    then have a: "cts' ! k = ((\<lambda>ct. add64 ct 1) ^^ count_list cs (int k)) (?cts ! k)"
      using v by simp
    show "cts' ! k = ((\<lambda>ct. add64 ct 1) ^^ count_list (c # cs) (int k)) (cts ! k)"
    proof (cases "int k = c")
      case True
      then have kc: "nat c = k" by auto
      have "((\<lambda>ct. add64 ct 1) ^^ count_list cs c) (add64 (cts ! k) 1) =
            add64 (((\<lambda>ct. add64 ct 1) ^^ count_list cs c) (cts ! k)) 1"
        using funpow_swap1[of "\<lambda>ct. add64 ct 1" "count_list cs c" "cts ! k"] by simp
      then show ?thesis using a True k kc by simp
    next
      case False
      then have "nat c \<noteq> k" using rng by auto
      then show ?thesis using a False by simp
    qed
  qed
  then show ?case using e l by simp
qed

lemma incr_each_in_range:
  "incr_each cts cs = Inr cts' \<Longrightarrow> \<forall>c\<in>set cs. 0 \<le> c \<and> c < int (length cts)"
proof (induction cs arbitrary: cts)
  case Nil
  then show ?case by simp
next
  case (Cons c cs)
  from Cons.prems have rng: "0 \<le> c \<and> c < int (length cts)"
    and r: "incr_each (cts[nat c := add64 (cts ! nat c) 1]) cs = Inr cts'"
    by (auto split: if_splits)
  from Cons.IH[OF r] rng show ?case by simp
qed

lemma AddOutput_counters:
  assumes "AddOutput n d cs = Inr (None, n')"
  shows "length (ocCounts n') = length (ocCounts n) \<and>
         (\<forall>k<length (ocCounts n).
            ocCounts n' ! k =
              (if cs = [] then add64 (ocCounts n ! k) 1
               else ((\<lambda>ct. add64 ct 1) ^^ count_list cs (int k)) (ocCounts n ! k)))"
proof (cases "cs = []")
  case True
  then show ?thesis using assms
    by (auto simp: AddOutput_def incr_all_def Let_def split: if_splits sum.splits)
next
  case False
  from assms False obtain cts where ie: "incr_each (ocCounts n) cs = Inr cts"
    and oc: "ocCounts n' = cts"
    by (auto simp: AddOutput_def Let_def split: if_splits sum.splits)
  have rng: "\<forall>c\<in>set cs. 0 \<le> c \<and> c < int (length (ocCounts n))"
    using ie by (rule incr_each_in_range)
  from incr_each_counts[OF rng] ie oc False show ?thesis by auto
qed

lemma Output_counters:
  "Output Pipe n cs = Inr (src, n') \<Longrightarrow> ocCounts n' = incr_all (ocCounts n)"
  by (auto simp: Output_def Let_def split: if_splits sum.splits prod.splits)

text \<open>The two passes of \<^verbatim>\<open>ckInputsUnique\<close> over the selection.\<close>

lemma set_each_ok:
  "\<forall>c\<in>set cs. 0 \<le> c \<and> c < int (length cts) \<Longrightarrow>
   \<exists>cts'. set_each cts cs = Inr cts' \<and> length cts' = length cts \<and>
          (\<forall>c\<in>set cs. cts' ! nat c = 1) \<and>
          (\<forall>k<length cts. int k \<notin> set cs \<longrightarrow> cts' ! k = cts ! k)"
proof (induction cs arbitrary: cts)
  case Nil
  then show ?case by simp
next
  case (Cons c cs)
  let ?cts = "cts[nat c := 1]"
  from Cons.prems have rng: "0 \<le> c" "c < int (length cts)" by auto
  have "\<forall>c\<in>set cs. 0 \<le> c \<and> c < int (length ?cts)" using Cons.prems by simp
  from Cons.IH[OF this] obtain cts' where
    r: "set_each ?cts cs = Inr cts'" and l: "length cts' = length ?cts"
    and one: "\<forall>c\<in>set cs. cts' ! nat c = 1"
    and oth: "\<forall>k<length ?cts. int k \<notin> set cs \<longrightarrow> cts' ! k = ?cts ! k"
    by blast
  have e: "set_each cts (c # cs) = Inr cts'" using rng r by simp
  have c1: "cts' ! nat c = 1"
  proof (cases "c \<in> set cs")
    case True
    then show ?thesis using one by blast
  next
    case False
    then have "int (nat c) \<notin> set cs" using rng by simp
    moreover have "nat c < length ?cts" using rng by simp
    ultimately have "cts' ! nat c = ?cts ! nat c" using oth by blast
    then show ?thesis using rng by simp
  qed
  have o': "\<forall>k<length cts. int k \<notin> set (c # cs) \<longrightarrow> cts' ! k = cts ! k"
  proof (intro allI impI)
    fix k assume k: "k < length cts" and nk: "int k \<notin> set (c # cs)"
    then have "cts' ! k = ?cts ! k" using oth by simp
    moreover have "k \<noteq> nat c" using nk rng by auto
    ultimately show "cts' ! k = cts ! k" by simp
  qed
  show ?case using e l c1 one o' by simp
qed

lemma first_claimed_hit:
  "\<forall>c\<in>set cs. 0 \<le> c \<and> c < int (length cts) \<Longrightarrow> \<exists>c\<in>set cs. 0 < cts ! nat c \<Longrightarrow>
   \<exists>c. first_claimed cts cs = Inr (Some c)"
  by (induction cs) auto

lemma first_positive_hit:
  "\<exists>ct\<in>set cts. 0 < ct \<Longrightarrow> \<exists>k. first_positive cts j = Some k"
  by (induction cts arbitrary: j) auto

text \<open>
  A call that selects a channel whose counter is already positive fails and leaves the
  node as it was; a call that succeeds sets the counter of every channel it selects to 1.
\<close>

lemma SetInput_claimed_fails:
  assumes rate: "fSampleRate (eForm src) = fSampleRate (iForm n)"
    and rng: "\<forall>c\<in>set cs. 0 \<le> c \<and> c < int (length (icCounts n))"
    and claimed: "if cs = [] then \<exists>ct\<in>set (icCounts n). 0 < ct
                  else \<exists>c\<in>set cs. 0 < icCounts n ! nat c"
  shows "\<exists>c. SetInput n src cs = Inr (Some (AlreadyHasInput c), n)"
proof (cases "cs = []")
  case True
  with claimed obtain k where "first_positive (icCounts n) 0 = Some k"
    using first_positive_hit[of "icCounts n" 0] by auto
  then show ?thesis using True rate by (simp add: SetInput_def ckInputsUnique_def)
next
  case False
  with claimed rng obtain c where "first_claimed (icCounts n) cs = Inr (Some c)"
    using first_claimed_hit[of cs "icCounts n"] by auto
  then show ?thesis using False rate by (simp add: SetInput_def ckInputsUnique_def)
qed

lemma ckInputsUnique_claims:
  assumes "ckInputsUnique n cs = Inr (None, n1)"
  shows "iForm n1 = iForm n \<and> length (icCounts n1) = length (icCounts n) \<and>
         (\<forall>k<length (icCounts n). cs = [] \<or> int k \<in> set cs \<longrightarrow> icCounts n1 ! k = 1)"
proof (cases "cs = []")
  case True
  then show ?thesis using assms
    by (auto simp: ckInputsUnique_def split: option.splits)
next
  case False
  from assms False obtain cts where fc: "first_claimed (icCounts n) cs = Inr None"
    and se: "set_each (icCounts n) cs = Inr cts" and n1: "n1 = n\<lparr>icCounts := cts\<rparr>"
    by (auto simp: ckInputsUnique_def split: sum.splits option.splits)
  have rng: "\<forall>c\<in>set cs. 0 \<le> c \<and> c < int (length (icCounts n))"
    using fc by (induction cs) (auto split: if_splits)
  from set_each_ok[OF rng] se have l: "length cts = length (icCounts n)"
    and one: "\<forall>c\<in>set cs. cts ! nat c = 1" by auto
  have "\<forall>k<length (icCounts n). int k \<in> set cs \<longrightarrow> cts ! k = 1"
  proof (intro allI impI)
    fix k assume "k < length (icCounts n)" "int k \<in> set cs"
    then have "cts ! nat (int k) = 1" using one by blast
    then show "cts ! k = 1" by simp
  qed
  then show ?thesis using n1 l False by simp
qed

lemma SetInput_claims:
  assumes "SetInput n src cs = Inr (None, n1)"
  shows "iForm n1 = iForm n \<and> length (icCounts n1) = length (icCounts n) \<and>
         (\<forall>k<length (icCounts n). cs = [] \<or> int k \<in> set cs \<longrightarrow> icCounts n1 ! k = 1)"
proof -
  from assms obtain n' pkt where ck: "ckInputsUnique n cs = Inr (None, n')"
    and n1: "n1 = (n'\<lparr>ins := ins n' @ [newConn InC PrC DoneC], iPkts := iPkts n' @ [zero_packet]\<rparr>)
                    \<lparr>iPkts := (iPkts n' @ [zero_packet])[length (ins n') := pkt]\<rparr>"
    by (auto simp: SetInput_def Let_def split: if_splits sum.splits option.splits prod.splits)
  from ckInputsUnique_claims[OF ck] show ?thesis using n1 by simp
qed

text \<open>
  No wiring call takes a claim back: \<^verbatim>\<open>SetInput\<close> only ever sets counters to 1, and
  \<^verbatim>\<open>AddOutput\<close> and \<^verbatim>\<open>Output\<close> leave the input counters alone.
\<close>

lemma keeps_claims_refl: "keeps_claims n n"
  by (simp add: keeps_claims_def)

lemma keeps_claims_trans: "keeps_claims n n1 \<Longrightarrow> keeps_claims n1 n2 \<Longrightarrow> keeps_claims n n2"
  by (simp add: keeps_claims_def)

lemma keeps_claims_same:
  "iForm n' = iForm n \<Longrightarrow> icCounts n' = icCounts n \<Longrightarrow> keeps_claims n n'"
  by (simp add: keeps_claims_def)

lemma set_each_keeps:
  "set_each cts cs = Inr cts' \<Longrightarrow>
   length cts' = length cts \<and> (\<forall>k<length cts. cts' ! k = 1 \<or> cts' ! k = cts ! k)"
proof (induction cs arbitrary: cts)
  case Nil
  then show ?case by simp
next
  case (Cons c cs)
  from Cons.prems have rng: "0 \<le> c" "c < int (length cts)"
    and r: "set_each (cts[nat c := 1]) cs = Inr cts'"
    by (auto split: if_splits)
  from Cons.IH[OF r] have l: "length cts' = length cts"
    and v: "\<forall>k<length cts. cts' ! k = 1 \<or> cts' ! k = (cts[nat c := 1]) ! k"
    by auto
  have "\<forall>k<length cts. cts' ! k = 1 \<or> cts' ! k = cts ! k"
  proof (intro allI impI)
    fix k assume k: "k < length cts"
    show "cts' ! k = 1 \<or> cts' ! k = cts ! k"
      using v k by (cases "k = nat c") auto
  qed
  then show ?case using l by simp
qed

lemma ckInputsUnique_keeps:
  assumes "ckInputsUnique n cs = Inr (err, n')"
  shows "keeps_claims n n'"
proof (cases "cs = []")
  case True
  then show ?thesis using assms
    by (auto simp: ckInputsUnique_def keeps_claims_def split: option.splits)
next
  case False
  show ?thesis
  proof (cases err)
    case (Some e)
    then have "n' = n" using assms False
      by (auto simp: ckInputsUnique_def split: sum.splits option.splits)
    then show ?thesis by (simp add: keeps_claims_refl)
  next
    case None
    from assms False None obtain cts where se: "set_each (icCounts n) cs = Inr cts"
      and n': "n' = n\<lparr>icCounts := cts\<rparr>"
      by (auto simp: ckInputsUnique_def split: sum.splits option.splits)
    from set_each_keeps[OF se] have l: "length cts = length (icCounts n)"
      and v: "\<forall>k<length (icCounts n). cts ! k = 1 \<or> cts ! k = icCounts n ! k" by auto
    have "\<forall>k<length (icCounts n). 0 < icCounts n ! k \<longrightarrow> 0 < cts ! k"
    proof (intro allI impI)
      fix k assume "k < length (icCounts n)" "0 < icCounts n ! k"
      then show "0 < cts ! k" using v by (auto dest: spec[where x=k])
    qed
    then show ?thesis using n' l by (simp add: keeps_claims_def)
  qed
qed

lemma SetInput_keeps:
  assumes "SetInput n src cs = Inr (err, n')"
  shows "keeps_claims n n'"
proof (cases "fSampleRate (eForm src) = fSampleRate (iForm n)")
  case False
  then have "n' = n" using assms by (simp add: SetInput_def)
  then show ?thesis by (simp add: keeps_claims_refl)
next
  case True
  from assms True obtain e n1 where ck: "ckInputsUnique n cs = Inr (e, n1)"
    and f: "iForm n' = iForm n1" and c: "icCounts n' = icCounts n1"
    by (auto simp: SetInput_def Let_def split: if_splits sum.splits option.splits prod.splits)
  from ckInputsUnique_keeps[OF ck] keeps_claims_same[OF f c] show ?thesis
    by (rule keeps_claims_trans)
qed

lemma AddOutput_keeps:
  "AddOutput n d cs = Inr (err, n') \<Longrightarrow> keeps_claims n n'"
  by (rule keeps_claims_same)
     (auto simp: AddOutput_def Let_def split: if_splits sum.splits option.splits prod.splits)

lemma Output_keeps:
  "Output Pipe n cs = Inr (src, n') \<Longrightarrow> keeps_claims n n'"
  by (rule keeps_claims_same)
     (auto simp: Output_def Let_def split: if_splits sum.splits option.splits prod.splits)

section \<open>Running a node\<close>

text \<open>The wiring calls give every packet its endpoint.\<close>

lemma set_snoc_update: "set ((xs @ [x])[length xs := y]) = insert y (set xs)"
  by (simp add: list_update_append)

lemma New_wired: "New iF oF pr = Inr n \<Longrightarrow> wired n"
  by (auto simp: New_def wired_def split: if_splits)

lemma SetInput_wired:
  assumes w: "wired n" and s: "SetInput n src cs = Inr (err, n')"
  shows "wired n'"
proof (cases err)
  case (Some e)
  then have "n' = n" using s
    by (auto simp: SetInput_def ckInputsUnique_def Let_def
        split: if_splits sum.splits option.splits prod.splits)
  then show ?thesis using w by simp
next
  case None
  from s None obtain n1 pkt where
    ck: "ckInputsUnique n cs = Inr (None, n1)"
    and n': "n' = (n1\<lparr>ins := ins n1 @ [newConn InC PrC DoneC], iPkts := iPkts n1 @ [zero_packet]\<rparr>)
                    \<lparr>iPkts := (iPkts n1 @ [zero_packet])[length (ins n1) := pkt\<lparr>p_src := Some src\<rparr>]\<rparr>"
    by (auto simp: SetInput_def Let_def split: if_splits sum.splits option.splits prod.splits)
  from ck have same: "ins n1 = ins n" "iPkts n1 = iPkts n" "outs n1 = outs n" "oPkts n1 = oPkts n"
    by (auto simp: ckInputsUnique_def split: if_splits sum.splits option.splits)
  have l: "length (ins n1) = length (iPkts n1)" using w same by (simp add: wired_def)
  show ?thesis using w same n' l by (auto simp: wired_def set_snoc_update)
qed

lemma AddOutput_wired:
  assumes w: "wired n" and s: "AddOutput n d cs = Inr (err, n')"
  shows "wired n'"
proof (cases err)
  case (Some e)
  then have "n' = n" using s
    by (auto simp: AddOutput_def Let_def split: if_splits sum.splits option.splits prod.splits)
  then show ?thesis using w by simp
next
  case None
  from s None obtain cts pkt where
    n': "n' = (n\<lparr>ocCounts := cts, outs := outs n @ [newConn OC OdC DoneC],
                  oPkts := oPkts n @ [zero_packet]\<rparr>)
                 \<lparr>oPkts := (oPkts n @ [zero_packet])[length (outs n) := pkt\<lparr>p_snk := Some d, p_src := None\<rparr>]\<rparr>"
    by (auto simp: AddOutput_def Let_def split: if_splits sum.splits option.splits prod.splits)
  have l: "length (outs n) = length (oPkts n)" using w by (simp add: wired_def)
  show ?thesis using w n' l by (auto simp: wired_def set_snoc_update)
qed

lemma Output_wired:
  assumes w: "wired n" and s: "Output Pipe n cs = Inr (src, n')"
  shows "wired n'"
proof -
  from s obtain pkt snk where
    n': "n' = (n\<lparr>ocCounts := incr_all (ocCounts n), outs := outs n @ [newConn OC OdC DoneC],
                  oPkts := oPkts n @ [zero_packet]\<rparr>)
                 \<lparr>oPkts := (oPkts n @ [zero_packet])[length (outs n) := pkt\<lparr>p_src := Some src, p_snk := Some snk\<rparr>]\<rparr>"
    by (auto simp: Output_def Let_def split: if_splits sum.splits option.splits prod.splits)
  have l: "length (outs n) = length (oPkts n)" using w by (simp add: wired_def)
  show ?thesis using w n' l by (auto simp: wired_def set_snoc_update)
qed

lemma wired_endpoints:
  "wired n \<Longrightarrow> (\<forall>p\<in>set (oPkts n). p_snk p \<noteq> None) \<and> (\<forall>p\<in>set (iPkts n). p_src p \<noteq> None)"
  by (simp add: wired_def)

text \<open>The connectivity check and the deferred function.\<close>

lemma first_zero_hit: "0 \<in> set cts \<Longrightarrow> \<exists>i. first_zero cts j = Some i"
  by (induction cts arbitrary: j) auto

lemma first_zero_miss: "0 \<notin> set cts \<Longrightarrow> first_zero cts j = None"
  by (induction cts arbitrary: j) auto

lemma checkConns_disconnected:
  "0 \<in> set (icCounts n) \<or> 0 \<in> set (ocCounts n) \<Longrightarrow> \<exists>b i. checkConns n = Some (DisconnectedError b i)"
proof (cases "0 \<in> set (icCounts n)")
  case True
  then obtain i where "first_zero (icCounts n) 0 = Some i" using first_zero_hit by blast
  then show ?thesis by (auto simp: checkConns_def)
next
  case False
  assume "0 \<in> set (icCounts n) \<or> 0 \<in> set (ocCounts n)"
  with False have "0 \<in> set (ocCounts n)" by simp
  then obtain i where "first_zero (ocCounts n) 0 = Some i" using first_zero_hit by blast
  then show ?thesis using False by (auto simp: checkConns_def first_zero_miss)
qed

lemma close_sinks_ok:
  "\<forall>p\<in>set pkts. p_snk p \<noteq> None \<Longrightarrow>
   close_sinks pkts = Inr (map (\<lambda>p. CloseSink (the (p_snk p))) pkts)"
  by (induction pkts) auto

lemma close_sources_ok:
  "\<forall>p\<in>set pkts. p_src p \<noteq> None \<Longrightarrow>
   close_sources pkts = Inr (map (\<lambda>p. CloseSource (the (p_src p))) pkts)"
  by (induction pkts) auto

lemma deferred_ok:
  "\<forall>p\<in>set (oPkts n). p_snk p \<noteq> None \<Longrightarrow> \<forall>p\<in>set (iPkts n). p_src p \<noteq> None \<Longrightarrow>
   deferred n = Inr (CloseChan DoneC # map (\<lambda>p. CloseSink (the (p_snk p))) (oPkts n) @
                       map (\<lambda>p. CloseSource (the (p_src p))) (iPkts n))"
  by (simp add: deferred_def close_sinks_ok close_sources_ok)

text \<open>
  Claim C4.  When some input or output claim counter of the node is zero (and every
  registered packet has its endpoint, as every packet made by the wiring calls has),
  \<^verbatim>\<open>Run\<close> returns a \<open>DisconnectedError\<close>; the state is the one it was called on, so no
  cycle has run, and its effects are those of the deferred function only: no worker is
  started.
\<close>

theorem Run_disconnected:
  assumes z: "0 \<in> set (icCounts (st_node s)) \<or> 0 \<in> set (ocCounts (st_node s))"
    and snk: "\<forall>p\<in>set (oPkts (st_node s)). p_snk p \<noteq> None"
    and src: "\<forall>p\<in>set (iPkts (st_node s)). p_src p \<noteq> None"
  shows "\<exists>b i es. Run P E s = Some (Inr (Some (DisconnectedError b i), es, s)) \<and>
                   es = CloseChan DoneC # map (\<lambda>p. CloseSink (the (p_snk p))) (oPkts (st_node s)) @
                          map (\<lambda>p. CloseSource (the (p_src p))) (iPkts (st_node s)) \<and>
                   (\<forall>c. GoServe c \<notin> set es)"
proof -
  from checkConns_disconnected[OF z] obtain b i where
    ck: "checkConns (st_node s) = Some (DisconnectedError b i)" by blast
  let ?es = "CloseChan DoneC # map (\<lambda>p. CloseSink (the (p_snk p))) (oPkts (st_node s)) @
                          map (\<lambda>p. CloseSource (the (p_src p))) (iPkts (st_node s))"
  have "Run P E s = Some (Inr (Some (DisconnectedError b i), ?es, s))"
    using ck deferred_ok[OF snk src] by (simp add: Run_def)
  moreover have "\<forall>c. GoServe c \<notin> set ?es" by auto
  ultimately show ?thesis by blast
qed

text \<open>
  The theorem on a two-channel node of which only input channel 1 is connected.
\<close>

theorem Run_disconnected_witness:
  "\<exists>n n1 b i es.
     New stereo_form stereo_form PassThrough = Inr (n :: int proc_struct node) \<and>
     SetInput n \<lparr>eForm = mono_form, eId = 0\<rparr> [1] = Inr (None, n1) \<and>
     Run proc_methods bounded_source \<lparr>st_heap = [], st_node = n1, st_ext = 0\<rparr> =
       Some (Inr (Some (DisconnectedError b i), es, \<lparr>st_heap = [], st_node = n1, st_ext = 0\<rparr>)) \<and>
     es = [CloseChan DoneC, CloseSource \<lparr>eForm = mono_form, eId = 0\<rparr>]"
proof -
  have "\<exists>n n1. New stereo_form stereo_form PassThrough = Inr (n :: int proc_struct node) \<and>
     SetInput n \<lparr>eForm = mono_form, eId = 0\<rparr> [1] = Inr (None, n1) \<and>
     (0 \<in> set (icCounts n1) \<or> 0 \<in> set (ocCounts n1)) \<and>
     (\<forall>p\<in>set (oPkts n1). p_snk p \<noteq> None) \<and> (\<forall>p\<in>set (iPkts n1). p_src p \<noteq> None) \<and>
     oPkts n1 = [] \<and> map (\<lambda>p. the (p_src p)) (iPkts n1) = [\<lparr>eForm = mono_form, eId = 0\<rparr>]"
    by (simp add: New_def SetInput_def ckInputsUnique_def init_def newCmap_def reslice_def
        zero_packet_def nil_slice_def newConn_def stereo_form_def mono_form_def Let_def
        numeral_2_eq_2)
  then obtain n :: "int proc_struct node" and n1 where
    n: "New stereo_form stereo_form PassThrough = Inr n"
    and f: "SetInput n \<lparr>eForm = mono_form, eId = 0\<rparr> [1] = Inr (None, n1)"
    and z: "0 \<in> set (icCounts n1) \<or> 0 \<in> set (ocCounts n1)"
    and k: "\<forall>p\<in>set (oPkts n1). p_snk p \<noteq> None" and s: "\<forall>p\<in>set (iPkts n1). p_src p \<noteq> None"
    and o: "oPkts n1 = []"
    and i: "map (\<lambda>p. the (p_src p)) (iPkts n1) = [\<lparr>eForm = mono_form, eId = 0\<rparr>]"
    by metis
  let ?s = "\<lparr>st_heap = ([] :: int list list), st_node = n1, st_ext = 0 :: nat\<rparr>"
  have z': "0 \<in> set (icCounts (st_node ?s)) \<or> 0 \<in> set (ocCounts (st_node ?s))" using z by simp
  have k': "\<forall>p\<in>set (oPkts (st_node ?s)). p_snk p \<noteq> None" using k by simp
  have s': "\<forall>p\<in>set (iPkts (st_node ?s)). p_src p \<noteq> None" using s by simp
  from Run_disconnected[OF z' k' s', of proc_methods bounded_source] obtain b i' es where
    "Run proc_methods bounded_source ?s = Some (Inr (Some (DisconnectedError b i'), es, ?s))"
    "es = CloseChan DoneC # map (\<lambda>p. CloseSink (the (p_snk p))) (oPkts (st_node ?s)) @
                          map (\<lambda>p. CloseSource (the (p_src p))) (iPkts (st_node ?s))"
    by blast
  moreover have "map (\<lambda>p. CloseSource (the (p_src p))) (iPkts n1) = [CloseSource \<lparr>eForm = mono_form, eId = 0\<rparr>]"
    using i by (cases "iPkts n1") auto
  ultimately show ?thesis using n f o by auto
qed

text \<open>The loop of \<^verbatim>\<open>Run\<close>: it passes over nil cycles and stops at the first other one.\<close>

lemma run_loop_nil_cycles:
  "nil_cycles cycle k s = Some s1 \<Longrightarrow> run_loop cycle s = run_loop cycle s1"
proof (induction k arbitrary: s)
  case 0
  then show ?case by simp
next
  case (Suc k)
  from Suc.prems obtain s' where c: "cycle s = Inr (None, s')" and r: "nil_cycles cycle k s' = Some s1"
    by (auto split: sum.splits if_splits)
  have "run_loop cycle s = run_loop cycle s'"
    by (subst run_loop.simps) (simp add: c)
  then show ?case using Suc.IH[OF r] by simp
qed

lemma run_loop_stop:
  "cycle s = Inr (Some err, s') \<Longrightarrow>
   run_loop cycle s = Some (Inr (if err = EOF then None else Some err, s'))"
  by (subst run_loop.simps) simp

lemma run_loop_returns:
  "run_loop cycle s = Some r \<Longrightarrow>
   \<exists>k s1. nil_cycles cycle k s = Some s1 \<and>
      (case cycle s1 of
         Inl e \<Rightarrow> r = Inl e
       | Inr (err, s2) \<Rightarrow> err \<noteq> None \<and> r = Inr (if err = Some EOF then None else err, s2))"
proof (rule run_loop.raw_induct[where
          P = "\<lambda>cycle s r. \<exists>k s1. nil_cycles cycle k s = Some s1 \<and>
                 (case cycle s1 of
                    Inl e \<Rightarrow> r = Inl e
                  | Inr (err, s2) \<Rightarrow>
                      err \<noteq> None \<and> r = Inr (if err = Some EOF then None else err, s2))"
          and cycle = cycle and s = s and y = r], goal_cases)
  case (1 run_loop' cycle s r)
  show ?case
  proof (cases "cycle s")
    case (Inl e)
    from 1 Inl have "r = Inl e" by simp
    then have "nil_cycles cycle 0 s = Some s \<and>
      (case cycle s of Inl e \<Rightarrow> r = Inl e
       | Inr (err, s2) \<Rightarrow> err \<noteq> None \<and> r = Inr (if err = Some EOF then None else err, s2))"
      using Inl by simp
    then show ?thesis by blast
  next
    case (Inr p)
    obtain err s' where p: "p = (err, s')" by (cases p)
    show ?thesis
    proof (cases "err = None")
      case True
      from 1 Inr p True have "run_loop' cycle s' = Some r" by simp
      from 1 this obtain k s1 where
        "nil_cycles cycle k s' = Some s1"
        "(case cycle s1 of Inl e \<Rightarrow> r = Inl e
          | Inr (err, s2) \<Rightarrow> err \<noteq> None \<and> r = Inr (if err = Some EOF then None else err, s2))"
        by meson
      then have "nil_cycles cycle (Suc k) s = Some s1 \<and>
        (case cycle s1 of Inl e \<Rightarrow> r = Inl e
          | Inr (err, s2) \<Rightarrow> err \<noteq> None \<and> r = Inr (if err = Some EOF then None else err, s2))"
        using Inr p True by simp
      then show ?thesis by blast
    next
      case False
      from 1 Inr p False have "r = Inr (if err = Some EOF then None else err, s')"
        by (auto split: if_splits)
      then have "nil_cycles cycle 0 s = Some s \<and>
        (case cycle s of Inl e \<Rightarrow> r = Inl e
         | Inr (err, s2) \<Rightarrow> err \<noteq> None \<and> r = Inr (if err = Some EOF then None else err, s2))"
        using Inr p False by simp
      then show ?thesis by blast
    qed
  qed
qed assumption

text \<open>
  Claim C5.  For a node that passes the connectivity check, \<^verbatim>\<open>Run\<close> returns \<open>r\<close> in state
  \<open>s2\<close> exactly when, after some number of cycles that returned nil (each of which led to
  another cycle), a cycle returns a non-nil error \<open>err\<close> in state \<open>s2\<close>, and \<open>r\<close> is nil if
  \<open>err\<close> is \<^verbatim>\<open>io.EOF\<close> and \<open>err\<close> itself otherwise.  So \<^verbatim>\<open>Run\<close> returns nil exactly when
  the error of the cycle that ends the loop is \<^verbatim>\<open>io.EOF\<close>.  The workers are started before
  the first cycle and the deferred function runs after the last.
\<close>

theorem Run_result:
  assumes conn: "checkConns (st_node s) = None"
  shows "Run P E s = Some (Inr (r, effs, s2)) \<longleftrightarrow>
         (\<exists>k s1 err es.
            nil_cycles (process P E) k s = Some s1 \<and>
            process P E s1 = Inr (Some err, s2) \<and>
            deferred (st_node s2) = Inr es \<and>
            r = (if err = EOF then None else Some err) \<and>
            effs = node_serve (st_node s) @ es)"
proof
  assume run: "Run P E s = Some (Inr (r, effs, s2))"
  then obtain es where rl: "run_loop (process P E) s = Some (Inr (r, s2))"
    and d: "deferred (st_node s2) = Inr es" and e: "effs = node_serve (st_node s) @ es"
    using conn by (auto simp: Run_def split: option.splits sum.splits)
  from run_loop_returns[OF rl] have "\<exists>k s1 err. nil_cycles (process P E) k s = Some s1 \<and>
      process P E s1 = Inr (Some err, s2) \<and> r = (if err = EOF then None else Some err)"
    by (fastforce split: sum.splits if_splits)
  then show "\<exists>k s1 err es.
            nil_cycles (process P E) k s = Some s1 \<and>
            process P E s1 = Inr (Some err, s2) \<and>
            deferred (st_node s2) = Inr es \<and>
            r = (if err = EOF then None else Some err) \<and>
            effs = node_serve (st_node s) @ es"
    using d e by blast
next
  assume "\<exists>k s1 err es.
            nil_cycles (process P E) k s = Some s1 \<and>
            process P E s1 = Inr (Some err, s2) \<and>
            deferred (st_node s2) = Inr es \<and>
            r = (if err = EOF then None else Some err) \<and>
            effs = node_serve (st_node s) @ es"
  then obtain k s1 err es where nils: "nil_cycles (process P E) k s = Some s1"
    and last: "process P E s1 = Inr (Some err, s2)"
    and dfr: "deferred (st_node s2) = Inr es"
    and r: "r = (if err = EOF then None else Some err)"
    and e: "effs = node_serve (st_node s) @ es"
    by blast
  have "run_loop (process P E) s = Some (Inr (r, s2))"
    using run_loop_nil_cycles[of "process P E" k s s1] run_loop_stop[of "process P E" s1 err s2]
      nils last r by simp
  then show "Run P E s = Some (Inr (r, effs, s2))" using conn dfr e by (simp add: Run_def)
qed

text \<open>
  The theorem on a one-channel pass-through node with one source and one sink: the
  first cycle moves two frames and returns nil, the second meets \<^verbatim>\<open>io.EOF\<close>, and \<^verbatim>\<open>Run\<close>
  returns nil.
\<close>

theorem Run_result_witness:
  "\<exists>n n1 n2 s2.
     New mono_form mono_form (NewProcessorFrames MonoMode PassThrough_func 2 2) =
       Inr (n :: int proc_struct node) \<and>
     SetInput n \<lparr>eForm = mono_form, eId = 0\<rparr> [] = Inr (None, n1) \<and>
     AddOutput n1 \<lparr>eForm = mono_form, eId = 1\<rparr> [] = Inr (None, n2) \<and>
     Run proc_methods bounded_source \<lparr>st_heap = [], st_node = n2, st_ext = 0\<rparr> =
       Some (Inr (None,
                  [GoServe (newConn InC PrC DoneC), GoServe (newConn OC OdC DoneC),
                   CloseChan DoneC, CloseSink \<lparr>eForm = mono_form, eId = 1\<rparr>,
                   CloseSource \<lparr>eForm = mono_form, eId = 0\<rparr>],
                  s2)) \<and>
     st_ext s2 = 2"
proof -
  have "\<exists>n n1 n2 s1 s2 es.
     New mono_form mono_form (NewProcessorFrames MonoMode PassThrough_func 2 2) =
       Inr (n :: int proc_struct node) \<and>
     SetInput n \<lparr>eForm = mono_form, eId = 0\<rparr> [] = Inr (None, n1) \<and>
     AddOutput n1 \<lparr>eForm = mono_form, eId = 1\<rparr> [] = Inr (None, n2) \<and>
     checkConns n2 = None \<and>
     nil_cycles (process proc_methods bounded_source) (Suc 0)
        \<lparr>st_heap = [], st_node = n2, st_ext = 0\<rparr> = Some s1 \<and>
     process proc_methods bounded_source s1 = Inr (Some EOF, s2) \<and>
     deferred (st_node s2) = Inr es \<and>
     node_serve n2 @ es =
        [GoServe (newConn InC PrC DoneC), GoServe (newConn OC OdC DoneC),
         CloseChan DoneC, CloseSink \<lparr>eForm = mono_form, eId = 1\<rparr>,
         CloseSource \<lparr>eForm = mono_form, eId = 0\<rparr>] \<and>
     st_ext s2 = 2"
    by (simp add: process_def size_blocks_def read_phase_def proc_phase_def write_phase_def run_proc_def
      buffer_def make_slice_def reslice_def copy_def mul64_def add64_def wrap64_def
      put_def put_chan_def get_def get_chan_def mapC_def imapC_def index_int_def
      serve_request_def worker0_def signed_divide_int_def MonoMode_def FullMode_def
      New_def SetInput_def AddOutput_def ckInputsUnique_def init_def newCmap_def newConn_def
      incr_all_def zero_packet_def nil_slice_def Let_def numeral_2_eq_2 numeral_3_eq_3
      checkConns_def deferred_def node_serve_def proc_methods_def PassThrough_func_def
      NewProcessorFrames_def bounded_source_def mono_form_def upt_one)
  then obtain n :: "int proc_struct node" and n1 n2 s1 s2 es where
    n: "New mono_form mono_form (NewProcessorFrames MonoMode PassThrough_func 2 2) = Inr n"
    and n1: "SetInput n \<lparr>eForm = mono_form, eId = 0\<rparr> [] = Inr (None, n1)"
    and n2: "AddOutput n1 \<lparr>eForm = mono_form, eId = 1\<rparr> [] = Inr (None, n2)"
    and ck: "checkConns n2 = None"
    and nc: "nil_cycles (process proc_methods bounded_source) (Suc 0)
        \<lparr>st_heap = [], st_node = n2, st_ext = 0\<rparr> = Some s1"
    and pr: "process proc_methods bounded_source s1 = Inr (Some EOF, s2)"
    and df: "deferred (st_node s2) = Inr es"
    and ef: "node_serve n2 @ es =
        [GoServe (newConn InC PrC DoneC), GoServe (newConn OC OdC DoneC),
         CloseChan DoneC, CloseSink \<lparr>eForm = mono_form, eId = 1\<rparr>,
         CloseSource \<lparr>eForm = mono_form, eId = 0\<rparr>]"
    and x: "st_ext s2 = 2"
    by metis
  let ?s = "\<lparr>st_heap = ([] :: int list list), st_node = n2, st_ext = 0 :: nat\<rparr>"
  have ck': "checkConns (st_node ?s) = None" using ck by simp
  have "\<exists>k s1 err es'.
            nil_cycles (process proc_methods bounded_source) k ?s = Some s1 \<and>
            process proc_methods bounded_source s1 = Inr (Some err, s2) \<and>
            deferred (st_node s2) = Inr es' \<and>
            None = (if err = EOF then None else Some err) \<and>
            node_serve n2 @ es = node_serve (st_node ?s) @ es'"
    using nc pr df by (intro exI[of _ "Suc 0"] exI[of _ s1] exI[of _ EOF] exI[of _ es]) simp
  then have "Run proc_methods bounded_source ?s = Some (Inr (None, node_serve n2 @ es, s2))"
    using Run_result[OF ck', of proc_methods bounded_source None "node_serve n2 @ es" s2] by blast
  then show ?thesis using n n1 n2 ef x by auto
qed

section \<open>Claiming an input channel twice\<close>

text \<open>
  A processing cycle, and so \<^verbatim>\<open>Run\<close>, writes the Blocks, the packets and the processor
  of the node and nothing else; with the facts on the wiring calls, no sequence of calls
  takes a claim back.
\<close>

lemma size_blocks_keeps:
  "size_blocks P s = Inr (iFrms, s') \<Longrightarrow> keeps_claims (st_node s) (st_node s')"
  by (rule keeps_claims_same)
     (auto simp: size_blocks_def Let_def split: sum.splits prod.splits)

lemma read_phase_keeps:
  "read_phase E iFrms s = Inr (err, nFrms, s') \<Longrightarrow> keeps_claims (st_node s) (st_node s')"
  by (rule keeps_claims_same)
     (auto simp: read_phase_def Let_def split: sum.splits prod.splits if_splits)

lemma proc_phase_keeps:
  "proc_phase P nFrms s = Inr (err, s') \<Longrightarrow> keeps_claims (st_node s) (st_node s')"
  by (rule keeps_claims_same)
     (auto simp: proc_phase_def Let_def split: sum.splits prod.splits)

lemma write_phase_keeps:
  "write_phase E s = Inr (err, s') \<Longrightarrow> keeps_claims (st_node s) (st_node s')"
  by (rule keeps_claims_same)
     (auto simp: write_phase_def Let_def split: sum.splits prod.splits)

lemma process_keeps:
  assumes "process P E s = Inr (err, s')"
  shows "keeps_claims (st_node s) (st_node s')"
proof -
  from assms obtain iFrms s1 where sb: "size_blocks P s = Inr (iFrms, s1)"
    by (auto simp: process_def split: sum.splits)
  with assms obtain e1 nFrms s2 where rp: "read_phase E iFrms s1 = Inr (e1, nFrms, s2)"
    by (auto simp: process_def split: sum.splits)
  have k2: "keeps_claims (st_node s) (st_node s2)"
    using size_blocks_keeps[OF sb] read_phase_keeps[OF rp] by (rule keeps_claims_trans)
  show ?thesis
  proof (cases "e1 = None")
    case False
    then have "s' = s2" using assms sb rp by (simp add: process_def)
    then show ?thesis using k2 by simp
  next
    case True
    with assms sb rp obtain e2 s3 where pp: "proc_phase P nFrms s2 = Inr (e2, s3)"
      by (auto simp: process_def split: sum.splits)
    have k3: "keeps_claims (st_node s) (st_node s3)"
      using k2 proc_phase_keeps[OF pp] by (rule keeps_claims_trans)
    show ?thesis
    proof (cases "e2 = None")
      case False
      then have "s' = s3" using assms sb rp pp True by (simp add: process_def)
      then show ?thesis using k3 by simp
    next
      case e2: True
      then have "write_phase E s3 = Inr (err, s')"
        using assms sb rp pp True by (simp add: process_def)
      from k3 write_phase_keeps[OF this] show ?thesis by (rule keeps_claims_trans)
    qed
  qed
qed

lemma nil_cycles_keeps:
  assumes c: "\<And>t e t'. cycle t = Inr (e, t') \<Longrightarrow> keeps_claims (st_node t) (st_node t')"
  shows "nil_cycles cycle k s = Some s1 \<Longrightarrow> keeps_claims (st_node s) (st_node s1)"
proof (induction k arbitrary: s)
  case 0
  then show ?case by (simp add: keeps_claims_refl)
next
  case (Suc k)
  from Suc.prems obtain s' where st: "cycle s = Inr (None, s')"
    and r: "nil_cycles cycle k s' = Some s1"
    by (auto split: sum.splits if_splits)
  from c[OF st] Suc.IH[OF r] show ?case by (rule keeps_claims_trans)
qed

lemma run_loop_keeps:
  assumes r: "run_loop cycle s = Some (Inr (err, s'))"
    and c: "\<And>t e t'. cycle t = Inr (e, t') \<Longrightarrow> keeps_claims (st_node t) (st_node t')"
  shows "keeps_claims (st_node s) (st_node s')"
proof -
  have "\<exists>k s1 e. nil_cycles cycle k s = Some s1 \<and> cycle s1 = Inr (e, s')"
    using run_loop_returns[OF r] by (fastforce split: sum.splits prod.splits)
  then obtain k s1 e where n: "nil_cycles cycle k s = Some s1"
    and l: "cycle s1 = Inr (e, s')" by blast
  from nil_cycles_keeps[of cycle, OF c n] c[OF l] show ?thesis
    by (rule keeps_claims_trans)
qed

lemma Run_keeps:
  assumes "Run P E s = Some (Inr (err, effs, s'))"
  shows "keeps_claims (st_node s) (st_node s')"
proof (cases "checkConns (st_node s)")
  case (Some e)
  then have "s' = s" using assms by (auto simp: Run_def split: sum.splits)
  then show ?thesis by (simp add: keeps_claims_refl)
next
  case None
  then have "run_loop (process P E) s = Some (Inr (err, s'))" using assms
    by (auto simp: Run_def split: option.splits sum.splits)
  then show ?thesis by (rule run_loop_keeps) (rule process_keeps)
qed

lemma do_call_keeps:
  "do_call P E s c = Some (Inr s') \<Longrightarrow> keeps_claims (st_node s) (st_node s')"
proof (cases c)
  case (SetInputCall src cs)
  assume "do_call P E s c = Some (Inr s')"
  with SetInputCall obtain err n' where "SetInput (st_node s) src cs = Inr (err, n')"
    and "s' = s\<lparr>st_node := n'\<rparr>" by (auto split: sum.splits)
  then show ?thesis using SetInput_keeps by fastforce
next
  case (AddOutputCall d cs)
  assume "do_call P E s c = Some (Inr s')"
  with AddOutputCall obtain err n' where "AddOutput (st_node s) d cs = Inr (err, n')"
    and "s' = s\<lparr>st_node := n'\<rparr>" by (auto split: sum.splits)
  then show ?thesis using AddOutput_keeps by fastforce
next
  case (OutputCall Pipe cs)
  assume "do_call P E s c = Some (Inr s')"
  with OutputCall obtain src n' where "Output Pipe (st_node s) cs = Inr (src, n')"
    and "s' = s\<lparr>st_node := n'\<rparr>" by (auto split: sum.splits)
  then show ?thesis using Output_keeps by fastforce
next
  case RunCall
  assume "do_call P E s c = Some (Inr s')"
  with RunCall obtain err effs where "Run P E s = Some (Inr (err, effs, s'))"
    by (auto split: option.splits sum.splits)
  then show ?thesis by (rule Run_keeps)
qed

lemma do_calls_keeps:
  "do_calls P E s cl = Some (Inr s') \<Longrightarrow> keeps_claims (st_node s) (st_node s')"
proof (induction cl arbitrary: s)
  case Nil
  then show ?case by (simp add: keeps_claims_refl)
next
  case (Cons c cl)
  from Cons.prems obtain s1 where c: "do_call P E s c = Some (Inr s1)"
    and r: "do_calls P E s1 cl = Some (Inr s')"
    by (auto split: option.splits sum.splits)
  from do_call_keeps[OF c] Cons.IH[OF r] show ?case by (rule keeps_claims_trans)
qed

text \<open>
  Claim C3, as the code has it.  When a call of \<^verbatim>\<open>SetInput\<close> has succeeded and, after any
  sequence of further calls of \<^verbatim>\<open>SetInput\<close>, \<^verbatim>\<open>AddOutput\<close>, \<^verbatim>\<open>Output\<close> and \<^verbatim>\<open>Run\<close> on the
  node, a later call of \<^verbatim>\<open>SetInput\<close> (with a matching sample rate and a selection in range)
  claims a channel \<open>c\<close> that the first call claimed, where an empty selection claims every
  channel, the later call returns the configuration error "channel already has an input"
  and leaves the node, and so its input claim counters, exactly as they were before it.
\<close>

theorem SetInput_double_claim:
  assumes first: "SetInput (st_node s) s1 cs1 = Inr (None, n1)"
    and later: "do_calls P E (s\<lparr>st_node := n1\<rparr>) cl = Some (Inr s')"
    and rate: "fSampleRate (eForm s2) = fSampleRate (iForm (st_node s))"
    and rng: "\<forall>c\<in>set cs2. 0 \<le> c \<and> c < int (length (icCounts (st_node s)))"
    and c: "0 \<le> c" "c < int (length (icCounts (st_node s)))"
    and c1: "cs1 = [] \<or> c \<in> set cs1"
    and c2: "cs2 = [] \<or> c \<in> set cs2"
  shows "\<exists>c'. SetInput (st_node s') s2 cs2 = Inr (Some (AlreadyHasInput c'), st_node s')"
proof -
  let ?n = "st_node s" and ?n' = "st_node s'"
  from SetInput_claims[OF first] have f: "iForm n1 = iForm ?n"
    and l: "length (icCounts n1) = length (icCounts ?n)"
    and one: "\<forall>k<length (icCounts ?n). cs1 = [] \<or> int k \<in> set cs1 \<longrightarrow> icCounts n1 ! k = 1"
    by auto
  from do_calls_keeps[OF later] have k: "keeps_claims n1 ?n'" by simp
  then have f': "iForm ?n' = iForm ?n" and l': "length (icCounts ?n') = length (icCounts ?n)"
    and pos: "\<forall>k<length (icCounts ?n). 0 < icCounts n1 ! k \<longrightarrow> 0 < icCounts ?n' ! k"
    using f l by (auto simp: keeps_claims_def)
  have kc: "nat c < length (icCounts ?n)" using c by simp
  have "cs1 = [] \<or> int (nat c) \<in> set cs1" using c1 c by simp
  then have "icCounts n1 ! nat c = 1" using one kc by blast
  then have v: "0 < icCounts ?n' ! nat c" using pos kc by simp
  have "if cs2 = [] then \<exists>ct\<in>set (icCounts ?n'). 0 < ct
        else \<exists>c\<in>set cs2. 0 < icCounts ?n' ! nat c"
  proof (cases "cs2 = []")
    case True
    have "icCounts ?n' ! nat c \<in> set (icCounts ?n')" using kc l' by simp
    then show ?thesis using True v by (auto intro: bexI[where x="icCounts ?n' ! nat c"])
  next
    case False
    then have "c \<in> set cs2" using c2 by simp
    then show ?thesis using False v by (auto intro: bexI[where x=c])
  qed
  moreover have "fSampleRate (eForm s2) = fSampleRate (iForm ?n')" using rate f' by simp
  moreover have "\<forall>c\<in>set cs2. 0 \<le> c \<and> c < int (length (icCounts ?n'))" using rng l' by simp
  ultimately show ?thesis by (intro SetInput_claimed_fails) auto
qed

text \<open>
  Duplicate indices within one selection are not detected: on a fresh two-channel node
  \<^verbatim>\<open>SetInput(s, 0, 0)\<close> returns nil and changes the counters from \<open>[0, 0]\<close> to \<open>[1, 0]\<close>.
\<close>

theorem SetInput_duplicate_counterexample:
  "(case New stereo_form stereo_form PassThrough of
      Inl e \<Rightarrow> False
    | Inr n \<Rightarrow>
       (case SetInput n \<lparr>eForm = stereo_form, eId = 0\<rparr> [0, 0] of
          Inl e \<Rightarrow> False
        | Inr (err, n') \<Rightarrow> err = None \<and> icCounts n = [0, 0] \<and> icCounts n' = [1, 0]))"
  by (simp add: New_def SetInput_def ckInputsUnique_def init_def newCmap_def reslice_def
      zero_packet_def nil_slice_def newConn_def stereo_form_def Let_def numeral_2_eq_2)

text \<open>
  The theorem on a fresh two-channel node: channel 0 is claimed by a first call; then
  \<^verbatim>\<open>Run\<close> is called and returns at once, channel 1 being unclaimed, a sink is added and
  channel 1 is claimed by a second source; a last call that selects channel 0 again
  fails and leaves the node unchanged.
\<close>

theorem SetInput_double_claim_witness:
  "\<exists>n n1 s' c'.
     New stereo_form stereo_form PassThrough = Inr (n :: int proc_struct node) \<and>
     SetInput n \<lparr>eForm = mono_form, eId = 0\<rparr> [0] = Inr (None, n1) \<and>
     do_calls proc_methods bounded_source \<lparr>st_heap = [], st_node = n1, st_ext = 0\<rparr>
        [RunCall, AddOutputCall \<lparr>eForm = stereo_form, eId = 1\<rparr> [],
         SetInputCall \<lparr>eForm = mono_form, eId = 2\<rparr> [1]] = Some (Inr s') \<and>
     icCounts (st_node s') = [1, 1] \<and>
     SetInput (st_node s') \<lparr>eForm = mono_form, eId = 3\<rparr> [0] =
       Inr (Some (AlreadyHasInput c'), st_node s')"
proof -
  have "\<exists>n n1 s'.
     New stereo_form stereo_form PassThrough = Inr (n :: int proc_struct node) \<and>
     SetInput n \<lparr>eForm = mono_form, eId = 0\<rparr> [0] = Inr (None, n1) \<and>
     do_calls proc_methods bounded_source \<lparr>st_heap = [], st_node = n1, st_ext = 0\<rparr>
        [RunCall, AddOutputCall \<lparr>eForm = stereo_form, eId = 1\<rparr> [],
         SetInputCall \<lparr>eForm = mono_form, eId = 2\<rparr> [1]] = Some (Inr s') \<and>
     icCounts (st_node s') = [1, 1] \<and>
     fSampleRate (eForm \<lparr>eForm = mono_form, eId = 3\<rparr>) = fSampleRate (iForm n) \<and>
     (\<forall>c\<in>set [0 :: int]. 0 \<le> c \<and> c < int (length (icCounts n))) \<and>
     (0::int) < int (length (icCounts n))"
    by (simp add: New_def SetInput_def AddOutput_def ckInputsUnique_def Run_def checkConns_def
        deferred_def incr_all_def add64_def wrap64_def init_def newCmap_def reslice_def
        zero_packet_def nil_slice_def newConn_def stereo_form_def mono_form_def Let_def
        numeral_2_eq_2)
  then obtain n :: "int proc_struct node" and n1 and s' :: "(int, int proc_struct, nat) state"
    where n: "New stereo_form stereo_form PassThrough = Inr n"
    and f: "SetInput n \<lparr>eForm = mono_form, eId = 0\<rparr> [0] = Inr (None, n1)"
    and d: "do_calls proc_methods bounded_source \<lparr>st_heap = [], st_node = n1, st_ext = 0\<rparr>
        [RunCall, AddOutputCall \<lparr>eForm = stereo_form, eId = 1\<rparr> [],
         SetInputCall \<lparr>eForm = mono_form, eId = 2\<rparr> [1]] = Some (Inr s')"
    and v: "icCounts (st_node s') = [1, 1]"
    and r: "fSampleRate (eForm \<lparr>eForm = mono_form, eId = 3\<rparr>) = fSampleRate (iForm n)"
    and g: "\<forall>c\<in>set [0 :: int]. 0 \<le> c \<and> c < int (length (icCounts n))"
    and c: "(0::int) < int (length (icCounts n))"
    by blast
  have "\<exists>c'. SetInput (st_node s') \<lparr>eForm = mono_form, eId = 3\<rparr> [0] =
          Inr (Some (AlreadyHasInput c'), st_node s')"
    using SetInput_double_claim[of "\<lparr>st_heap = [], st_node = n, st_ext = 0\<rparr>"
        "\<lparr>eForm = mono_form, eId = 0\<rparr>" "[0]" n1 proc_methods bounded_source
        "[RunCall, AddOutputCall \<lparr>eForm = stereo_form, eId = 1\<rparr> [],
          SetInputCall \<lparr>eForm = mono_form, eId = 2\<rparr> [1]]" s'
        "\<lparr>eForm = mono_form, eId = 3\<rparr>" "[0]" 0] f d r g c
    by simp
  then show ?thesis using n f d v by blast
qed

section \<open>Connection workers\<close>






section \<open>The processing cycle: reading the inputs\<close>

text \<open>The panics of \<^verbatim>\<open>put\<close> are run-time panics, and \<^verbatim>\<open>put\<close> returns the packet's frame count.\<close>

lemma put_chan_not_Wilma: "put_chan h p dst c \<noteq> Inl Wilma"
  by (auto simp: put_chan_def mapC_def index_int_def reslice_def Let_def
      split: option.splits sum.splits if_splits)

lemma put_loop_not_Wilma: "put_loop h p dst cs \<noteq> Inl Wilma"
proof (induction cs arbitrary: h)
  case Nil
  then show ?case by simp
next
  case (Cons c cs)
  then show ?case using put_chan_not_Wilma[of h p dst "int c"]
    by (auto split: sum.splits)
qed

lemma put_not_Wilma: "put h p dst \<noteq> Inl Wilma"
  using put_loop_not_Wilma[of h p dst "[0..<nat (Channels dst)]"]
  by (auto simp: put_def split: sum.splits)

lemma put_frames: "put h p dst = Inr (h', m) \<Longrightarrow> m = p_n p"
  by (auto simp: put_def split: sum.splits)

lemma read_inputs_same:
  "\<forall>pkt\<in>set pkts. p_n pkt = v \<Longrightarrow> nFrms = - 1 \<or> nFrms = v \<Longrightarrow>
   read_inputs h iB nFrms pkts \<noteq> Inl Wilma"
proof (induction pkts arbitrary: h nFrms)
  case Nil
  then show ?case by simp
next
  case (Cons pkt pkts)
  show ?case
  proof (cases "p_err pkt")
    case (Some err)
    then show ?thesis by simp
  next
    case None
    show ?thesis
    proof (cases "put h pkt iB")
      case (Inl e)
      then have "e \<noteq> Wilma" using put_not_Wilma[of h pkt iB] by auto
      then show ?thesis using None Inl by simp
    next
      case (Inr r)
      obtain h' m where r: "r = (h', m)" by (cases r)
      have m: "m = v" using put_frames[of h pkt iB h' m] Inr r Cons.prems(1) by simp
      have n': "(if nFrms = - 1 then m else nFrms) = v" using Cons.prems(2) m by auto
      have "read_inputs h' iB v pkts \<noteq> Inl Wilma"
        using Cons.IH[of v h'] Cons.prems(1) by simp
      then show ?thesis using None Inr r m n' Cons.prems(2) by (auto simp: Let_def)
    qed
  qed
qed

lemma read_inputs_mismatch:
  "j < length pkts \<Longrightarrow> p_n (pkts ! j) \<noteq> nFrms \<Longrightarrow> nFrms \<noteq> - 1 \<Longrightarrow>
   \<forall>k\<le>j. p_err (pkts ! k) = None \<Longrightarrow>
   \<exists>e. read_inputs h iB nFrms pkts = Inl e"
proof (induction pkts arbitrary: h j)
  case Nil
  then show ?case by simp
next
  case (Cons pkt pkts)
  have e0: "p_err pkt = None" using Cons.prems(4) by (auto dest: spec[where x=0])
  show ?case
  proof (cases "put h pkt iB")
    case (Inl e)
    then show ?thesis using e0 by simp
  next
    case (Inr r)
    obtain h' m where r: "r = (h', m)" by (cases r)
    have m: "m = p_n pkt" using put_frames[of h pkt iB h' m] Inr r by simp
    show ?thesis
    proof (cases "m = nFrms")
      case False
      then show ?thesis using e0 Inr r Cons.prems(3) by (simp add: Let_def)
    next
      case True
      then have "j \<noteq> 0" using Cons.prems(2) m by (cases j) auto
      then obtain j' where j': "j = Suc j'" by (cases j) auto
      have a: "j' < length pkts" using Cons.prems(1) j' by simp
      have b: "p_n (pkts ! j') \<noteq> nFrms" using Cons.prems(2) j' by simp
      have c: "\<forall>k\<le>j'. p_err (pkts ! k) = None"
      proof (intro allI impI)
        fix k assume "k \<le> j'"
        then have "Suc k \<le> j" using j' by simp
        then have "p_err ((pkt # pkts) ! Suc k) = None" using Cons.prems(4) by blast
        then show "p_err (pkts ! k) = None" by simp
      qed
      from Cons.IH[OF a b Cons.prems(3) c, of h'] obtain e where
        "read_inputs h' iB nFrms pkts = Inl e" by blast
      then show ?thesis using e0 Inr r True Cons.prems(3) by (simp add: Let_def)
    qed
  qed
qed

text \<open>
  Claim C6.  Let \<open>pkts\<close> be the input packets in the order in which the cycle receives
  them.  If two of them report different frame counts, and no packet up to the later of
  the two reports an error (frame counts being non-negative), the loop panics instead
  of returning.  If all packets report the same frame count, the loop does not reach
  \<^verbatim>\<open>panic("wilma!")\<close>.
\<close>

theorem read_inputs_frame_counts:
  "(i < j \<and> j < length pkts \<and> p_n (pkts ! i) \<noteq> p_n (pkts ! j) \<and>
    (\<forall>k\<le>j. p_err (pkts ! k) = None \<and> 0 \<le> p_n (pkts ! k)) \<longrightarrow>
      (\<exists>e. read_inputs h iB (- 1) pkts = Inl e)) \<and>
   ((\<forall>pkt\<in>set pkts. p_n pkt = v) \<longrightarrow> read_inputs h iB (- 1) pkts \<noteq> Inl Wilma)"
proof (intro conjI impI)
  assume "\<forall>pkt\<in>set pkts. p_n pkt = v"
  then show "read_inputs h iB (- 1) pkts \<noteq> Inl Wilma"
    by (intro read_inputs_same[where v = v]) auto
next
  assume a: "i < j \<and> j < length pkts \<and> p_n (pkts ! i) \<noteq> p_n (pkts ! j) \<and>
    (\<forall>k\<le>j. p_err (pkts ! k) = None \<and> 0 \<le> p_n (pkts ! k))"
  then obtain pkt rest where pk: "pkts = pkt # rest" by (cases pkts) auto
  have e0: "p_err pkt = None" and n0: "0 \<le> p_n pkt" using a pk by (auto dest: spec[where x=0])
  show "\<exists>e. read_inputs h iB (- 1) pkts = Inl e"
  proof (cases "put h pkt iB")
    case (Inl e)
    then show ?thesis using e0 pk by simp
  next
    case (Inr r)
    obtain h' m where r: "r = (h', m)" by (cases r)
    have m: "m = p_n pkt" using put_frames[of h pkt iB h' m] Inr r by simp
    have step: "read_inputs h iB (- 1) pkts = read_inputs h' iB m rest"
      using e0 Inr r pk by (simp add: Let_def)
    obtain j' where j': "j = Suc j'" using a by (cases j) auto
    have errs: "\<forall>k\<le>j'. p_err (rest ! k) = None"
    proof (intro allI impI)
      fix k assume "k \<le> j'"
      then have "Suc k \<le> j" using j' by simp
      then have "p_err (pkts ! Suc k) = None" using a by blast
      then show "p_err (rest ! k) = None" using pk by simp
    qed
    have jl: "j' < length rest" using a pk j' by simp
    have ne: "m \<noteq> - 1" using m n0 by simp
    have "\<exists>q\<le>j'. p_n (rest ! q) \<noteq> m"
    proof (cases "p_n (pkts ! j) = m")
      case False
      then have "p_n (rest ! j') \<noteq> m" using pk j' by simp
      then show ?thesis by blast
    next
      case True
      then have "p_n (pkts ! i) \<noteq> m" using a by simp
      then have "i \<noteq> 0" using pk m by (cases i) auto
      then obtain i' where i': "i = Suc i'" by (cases i) auto
      then have "p_n (rest ! i') \<noteq> m" "i' \<le> j'" using \<open>p_n (pkts ! i) \<noteq> m\<close> pk a j' by auto
      then show ?thesis by blast
    qed
    then obtain q where q: "q \<le> j'" "p_n (rest ! q) \<noteq> m" by blast
    have ql: "q < length rest" using q jl by simp
    have qe: "\<forall>k\<le>q. p_err (rest ! k) = None" using errs q by auto
    from read_inputs_mismatch[OF ql q(2) ne qe, of h' iB] step show ?thesis by simp
  qed
qed

text \<open>
  The frame count \<open>-1\<close> is the value \<open>nFrms\<close> starts with.  A packet that reports it
  leaves \<open>nFrms\<close> unset, so on a Block without channels, where \<^verbatim>\<open>put\<close> slices nothing,
  the counts \<open>-1\<close> and \<open>5\<close> pass the loop.  A source that honours its contract reports
  no negative count.
\<close>

lemma read_inputs_sentinel:
  "read_inputs ([] :: int list list)
     \<lparr>Samples = nil_slice, Frames = 0, Channels = 0, SampleRate = 44100\<rparr> (- 1)
     [zero_packet\<lparr>p_n := - 1\<rparr>, zero_packet\<lparr>p_n := 5\<rparr>] = Inr (None, [], 5)"
  by (simp add: put_def zero_packet_def Let_def)

text \<open>A panic of the loop is a panic of the cycle.\<close>

lemma read_phase_panics:
  assumes "trigger_inputs (st_heap s) (iPkts (st_node s)) iFrms [0..<length (ins (st_node s))]
             = Inr (h1, ip1)"
    and "workers E ip1 [0..<length (ins (st_node s))] h1 (st_ext s) = Inr (ip2, h2, x1)"
    and "read_inputs h2 (iBlock (st_node s)) (- 1)
           (map (\<lambda>i. ip2 ! i) (sort_key (InDelay E x1) [0..<length (ins (st_node s))])) = Inl e"
  shows "read_phase E iFrms s = Inl e"
  using assms by (simp add: read_phase_def Let_def)

lemma process_panics:
  "size_blocks P s = Inr (iFrms, s1) \<Longrightarrow> read_phase E iFrms s1 = Inl e \<Longrightarrow> process P E s = Inl e"
  by (simp add: process_def)

text \<open>
  The theorem on two one-channel packets: frame counts 2 and 1 reach \<^verbatim>\<open>panic("wilma!")\<close>,
  frame counts 2 and 2 do not.
\<close>

theorem read_inputs_frame_counts_witness:
  "read_inputs [[0, 0, 0], [5, 6, 0], [7, 0, 0 :: int]]
     \<lparr>Samples = \<lparr>base = 0, off = 0, len = 2, cap = 3\<rparr>, Frames = 2, Channels = 1,
      SampleRate = 44100\<rparr> (- 1)
     [\<lparr>p_err = None, p_n = 2, p_samples = \<lparr>base = 1, off = 0, len = 2, cap = 3\<rparr>,
       p_cmap = Some \<lparr>cmap_m = [0], cmap_i = [0]\<rparr>, p_nC = 1,
       p_src = Some \<lparr>eForm = mono_form, eId = 0\<rparr>, p_snk = None\<rparr>,
      \<lparr>p_err = None, p_n = 1, p_samples = \<lparr>base = 2, off = 0, len = 2, cap = 3\<rparr>,
       p_cmap = Some \<lparr>cmap_m = [0], cmap_i = [0]\<rparr>, p_nC = 1,
       p_src = Some \<lparr>eForm = mono_form, eId = 1\<rparr>, p_snk = None\<rparr>] = Inl Wilma \<and>
   read_inputs [[0, 0, 0], [5, 6, 0], [7, 0, 0 :: int]]
     \<lparr>Samples = \<lparr>base = 0, off = 0, len = 2, cap = 3\<rparr>, Frames = 2, Channels = 1,
      SampleRate = 44100\<rparr> (- 1)
     [\<lparr>p_err = None, p_n = 2, p_samples = \<lparr>base = 1, off = 0, len = 2, cap = 3\<rparr>,
       p_cmap = Some \<lparr>cmap_m = [0], cmap_i = [0]\<rparr>, p_nC = 1,
       p_src = Some \<lparr>eForm = mono_form, eId = 0\<rparr>, p_snk = None\<rparr>,
      \<lparr>p_err = None, p_n = 2, p_samples = \<lparr>base = 2, off = 0, len = 2, cap = 3\<rparr>,
       p_cmap = Some \<lparr>cmap_m = [0], cmap_i = [0]\<rparr>, p_nC = 1,
       p_src = Some \<lparr>eForm = mono_form, eId = 1\<rparr>, p_snk = None\<rparr>] \<noteq> Inl Wilma"
proof -
  let ?h = "[[0, 0, 0], [5, 6, 0], [7, 0, 0 :: int]]"
  let ?iB = "\<lparr>Samples = \<lparr>base = 0, off = 0, len = 2, cap = 3\<rparr>, Frames = 2, Channels = 1,
      SampleRate = 44100\<rparr>"
  let ?a = "\<lparr>p_err = None, p_n = 2, p_samples = \<lparr>base = 1, off = 0, len = 2, cap = 3\<rparr>,
       p_cmap = Some \<lparr>cmap_m = [0], cmap_i = [0]\<rparr>, p_nC = 1,
       p_src = Some \<lparr>eForm = mono_form, eId = 0\<rparr>, p_snk = None\<rparr>"
  let ?b = "\<lparr>p_err = None, p_n = 1, p_samples = \<lparr>base = 2, off = 0, len = 2, cap = 3\<rparr>,
       p_cmap = Some \<lparr>cmap_m = [0], cmap_i = [0]\<rparr>, p_nC = 1,
       p_src = Some \<lparr>eForm = mono_form, eId = 1\<rparr>, p_snk = None\<rparr>"
  let ?c = "\<lparr>p_err = None, p_n = 2, p_samples = \<lparr>base = 2, off = 0, len = 2, cap = 3\<rparr>,
       p_cmap = Some \<lparr>cmap_m = [0], cmap_i = [0]\<rparr>, p_nC = 1,
       p_src = Some \<lparr>eForm = mono_form, eId = 1\<rparr>, p_snk = None\<rparr>"
  have h1: "(0::nat) < 1 \<and> 1 < length [?a, ?b] \<and> p_n ([?a, ?b] ! 0) \<noteq> p_n ([?a, ?b] ! 1) \<and>
    (\<forall>k\<le>1. p_err ([?a, ?b] ! k) = None \<and> 0 \<le> p_n ([?a, ?b] ! k))"
    by (auto simp: le_Suc_eq)
  have h2: "\<forall>pkt\<in>set [?a, ?c]. p_n pkt = 2" by simp
  from read_inputs_frame_counts[of 0 1 "[?a, ?b]" ?h ?iB 2] h1
  obtain e where e: "read_inputs ?h ?iB (- 1) [?a, ?b] = Inl e" by blast
  have w: "read_inputs ?h ?iB (- 1) [?a, ?b] = Inl Wilma"
    by (simp add: put_def put_chan_def mapC_def index_int_def reslice_def copy_def
        mul64_def add64_def wrap64_def Let_def upt_one)
  from read_inputs_frame_counts[of 0 1 "[?a, ?c]" ?h ?iB 2] h2
  have "read_inputs ?h ?iB (- 1) [?a, ?c] \<noteq> Inl Wilma" by blast
  then show ?thesis using e w by simp
qed

section \<open>The processing cycle: the per-channel mode\<close>

text \<open>
  Claim C1.  In \<^verbatim>\<open>MonoMode\<close>, \<^verbatim>\<open>process\<close> saves the channel counts of the two Blocks
  before the loop and writes them back after it, but never sets them to 1.  One cycle
  of a node with two input and two output channels, one stereo source and one stereo
  sink, run with the recording processor: \<^verbatim>\<open>Process\<close> is called twice, each time with
  the frame-run of one channel as sample slice, and each time with channel count 2 in
  both Blocks.
\<close>

theorem mono_mode_channel_count:
  "(case New stereo_form stereo_form [] of
      Inl e \<Rightarrow> None
    | Inr n \<Rightarrow>
       (case SetInput n \<lparr>eForm = stereo_form, eId = 0\<rparr> [] of
          Inl e \<Rightarrow> None
        | Inr (err1, n1) \<Rightarrow>
           (case AddOutput n1 \<lparr>eForm = stereo_form, eId = 1\<rparr> [] of
              Inl e \<Rightarrow> None
            | Inr (err2, n2) \<Rightarrow>
               (case process recorder bounded_source \<lparr>st_heap = [], st_node = n2, st_ext = 0\<rparr> of
                  Inl e \<Rightarrow> None
                | Inr (err, s) \<Rightarrow> Some (err, proc (st_node s)))))) =
   Some (None,
     [(\<lparr>Samples = \<lparr>base = 1, off = 0, len = 2, cap = 6\<rparr>, Frames = 2, Channels = 2, SampleRate = 44100\<rparr>,
       \<lparr>Samples = \<lparr>base = 0, off = 0, len = 2, cap = 6\<rparr>, Frames = 2, Channels = 2, SampleRate = 44100\<rparr>),
      (\<lparr>Samples = \<lparr>base = 1, off = 2, len = 2, cap = 4\<rparr>, Frames = 2, Channels = 2, SampleRate = 44100\<rparr>,
       \<lparr>Samples = \<lparr>base = 0, off = 2, len = 2, cap = 4\<rparr>, Frames = 2, Channels = 2, SampleRate = 44100\<rparr>)])"
  by (simp add: process_def size_blocks_def read_phase_def proc_phase_def write_phase_def run_proc_def
      buffer_def make_slice_def reslice_def copy_def mul64_def add64_def wrap64_def
      put_def put_chan_def get_def get_chan_def mapC_def imapC_def index_int_def
      serve_request_def worker0_def signed_divide_int_def MonoMode_def FullMode_def
      New_def SetInput_def AddOutput_def ckInputsUnique_def init_def newCmap_def newConn_def
      incr_all_def zero_packet_def nil_slice_def Let_def numeral_2_eq_2 numeral_3_eq_3
      recorder_def bounded_source_def stereo_form_def upt_one upt_two)

text \<open>
  What does hold: when the loop ends without an error, the channel counts and sample
  slices of both Blocks are the ones from before the loop.
\<close>

lemma run_proc_mono_restores:
  assumes "ChannelMode P ps = MonoMode"
    and "run_proc P ps h iB oB iC nFrms = Inr (None, ps', h', iB', oB')"
  shows "Channels iB' = Channels iB \<and> Samples iB' = Samples iB \<and>
         Channels oB' = Channels oB \<and> Samples oB' = Samples oB"
  using assms by (auto simp: run_proc_def Let_def split: sum.splits option.splits prod.splits)

section \<open>Packets: gathering and scattering\<close>

text \<open>Where \<^verbatim>\<open>copy\<close> writes, and what it leaves alone.\<close>

lemma valid_region: "valid_slice h s \<Longrightarrow> k \<le> cap s \<Longrightarrow> region_ok h s k"
  by (auto simp: valid_slice_def region_ok_def)

lemma copy_length [simp]: "length (copy h d s) = length h"
  by (simp add: copy_def Let_def)

lemma copy_other: "b \<noteq> base d \<Longrightarrow> copy h d s ! b = h ! b"
  by (simp add: copy_def Let_def)

lemma copy_empty: "min (len d) (len s) = 0 \<Longrightarrow> copy h d s = h"
  by (simp add: copy_def Let_def)

lemma copy_target:
  assumes k: "min (len d) (len s) = k" and b: "base d < length h"
    and dk: "off d + k \<le> length (h ! base d)" and sk: "off s + k \<le> length (h ! base s)"
  shows "length (copy h d s ! base d) = length (h ! base d)"
    and "j < length (h ! base d) \<Longrightarrow>
         (copy h d s ! base d) ! j =
           (if off d \<le> j \<and> j < off d + k then (h ! base s) ! (off s + (j - off d))
            else (h ! base d) ! j)"
proof -
  let ?A = "h ! base d"
  let ?vals = "take k (drop (off s) (h ! base s))"
  have lv: "length ?vals = k" using sk by simp
  have c: "copy h d s ! base d = (if k = 0 then ?A else take (off d) ?A @ ?vals @ drop (off d + k) ?A)"
    using k b by (simp add: copy_def Let_def)
  show "length (copy h d s ! base d) = length (h ! base d)"
    using c lv dk by auto
  assume j: "j < length (h ! base d)"
  show "(copy h d s ! base d) ! j =
           (if off d \<le> j \<and> j < off d + k then (h ! base s) ! (off s + (j - off d))
            else (h ! base d) ! j)"
  proof (cases "k = 0")
    case True
    then show ?thesis using c by auto
  next
    case False
    have lt: "length (take (off d) ?A) = off d" using dk by simp
    consider "j < off d" | "off d \<le> j \<and> j < off d + k" | "off d + k \<le> j" by linarith
    then show ?thesis
    proof cases
      case 1
      then show ?thesis using c False lt by (simp add: nth_append)
    next
      case 2
      then have a: "\<not> j < off d" "j - off d < k" by linarith+
      have "(take (off d) ?A @ ?vals @ drop (off d + k) ?A) ! j = (?vals @ drop (off d + k) ?A) ! (j - off d)"
        using lt a(1) by (simp add: nth_append)
      also have "\<dots> = ?vals ! (j - off d)"
        using lv a(2) by (simp add: nth_append)
      finally have "(take (off d) ?A @ ?vals @ drop (off d + k) ?A) ! j = ?vals ! (j - off d)" .
      also have "\<dots> = (h ! base s) ! (off s + (j - off d))"
        using a(2) sk by (simp add: nth_take nth_drop del: ordered_cancel_comm_monoid_diff_class.add_diff_assoc)
      finally show ?thesis using c False 2 by simp
    next
      case 3
      then have a: "\<not> j < off d" "\<not> j - off d < k" by linarith+
      have "(take (off d) ?A @ ?vals @ drop (off d + k) ?A) ! j = (?vals @ drop (off d + k) ?A) ! (j - off d)"
        using lt a(1) by (simp add: nth_append)
      also have "\<dots> = drop (off d + k) ?A ! (j - off d - k)"
        using lv a(2) by (simp add: nth_append)
      finally have "(take (off d) ?A @ ?vals @ drop (off d + k) ?A) ! j
                   = drop (off d + k) ?A ! (j - off d - k)" .
      also have "\<dots> = ?A ! j" using 3 j by simp
      finally show ?thesis using c False 3 by simp
    qed
  qed
qed

text \<open>Frame-runs: their bounds inside a buffer, and that distinct runs do not overlap.\<close>

lemma run_bound: "a < n \<Longrightarrow> a * f + f \<le> n * (f::nat)"
proof -
  assume "a < n"
  then have "Suc a \<le> n" by simp
  then have "Suc a * f \<le> n * f" by (rule mult_le_mono1)
  then show ?thesis by simp
qed

lemma run_disjoint:
  "a \<noteq> a' \<Longrightarrow> t < f \<Longrightarrow> \<not> (a * f \<le> a' * f + t \<and> a' * f + t < a * f + (f::nat))"
proof -
  assume ne: "a \<noteq> a'" and t: "t < f"
  show ?thesis
  proof (cases "a < a'")
    case True
    then have "a * f + f \<le> a' * f" using run_bound[of a a' f] by simp
    then show ?thesis by linarith
  next
    case False
    with ne have "a' < a" by simp
    then have "a' * f + f \<le> a * f" using run_bound[of a' a f] by simp
    then show ?thesis using t by linarith
  qed
qed

lemma run_int:
  assumes "a < n"
  shows "int a * int f + int f \<le> int n * int f" and "0 \<le> int a * int f"
    and "nat (int a * int f) = a * f" and "nat (int a * int f + int f - int a * int f) = f"
proof -
  have "a * f + f \<le> n * f" using assms by (rule run_bound)
  then have "int (a * f + f) \<le> int (n * f)" by (simp only: of_nat_le_iff)
  then show "int a * int f + int f \<le> int n * int f" by simp
  show "0 \<le> int a * int f" by simp
  show "nat (int a * int f) = a * f" by (simp add: nat_mult_distrib)
  show "nat (int a * int f + int f - int a * int f) = f" by simp
qed

lemma run_indices:
  assumes a: "a < n" and b: "int n * int f < 2 ^ 63"
  shows "mul64 (int a) (int f) = int a * int f"
    and "add64 (int a * int f) (int f) = int a * int f + int f"
proof -
  note r = run_int[OF a, of f]
  have p63: "(0::int) \<le> 2 ^ 63" by simp
  have lt: "int a * int f + int f < 2 ^ 63" using r(1) b by linarith
  have lt': "int a * int f < 2 ^ 63" using lt by linarith
  have ge: "- (2 ^ 63) \<le> int a * int f" using r(2) p63 by linarith
  show m: "mul64 (int a) (int f) = int a * int f" using ge lt' by (rule mul64_id)
  have ge': "- (2 ^ 63) \<le> int a * int f + int f" using r(2) p63 by linarith
  show "add64 (int a * int f) (int f) = int a * int f + int f" using ge' lt by (rule add64_id)
qed

text \<open>
  Copying run \<open>b\<close> of a slice \<open>S\<close> to run \<open>a\<close> of a slice \<open>D\<close>: the two reslicings do not
  panic, run \<open>a\<close> of \<open>D\<close> receives the old contents of run \<open>b\<close> of \<open>S\<close>, and nothing else
  changes.
\<close>

lemma copy_run:
  assumes dreg: "region_ok h D (nd * f)" and sreg: "region_ok h S (ns * f)"
    and a: "a < nd" and b: "b < ns"
    and bd: "int nd * int f < 2 ^ 63" and bs: "int ns * int f < 2 ^ 63"
  shows "\<exists>d s. reslice D (mul64 (int a) (int f)) (add64 (mul64 (int a) (int f)) (int f)) = Inr d \<and>
               reslice S (mul64 (int b) (int f)) (add64 (mul64 (int b) (int f)) (int f)) = Inr s \<and>
               length (copy h d s) = length h \<and>
               (\<forall>x. x \<noteq> base D \<longrightarrow> copy h d s ! x = h ! x) \<and>
               length (copy h d s ! base D) = length (h ! base D) \<and>
               (\<forall>t<f. (copy h d s ! base D) ! (off D + a * f + t) = (h ! base S) ! (off S + b * f + t)) \<and>
               (\<forall>j<length (h ! base D). \<not> (off D + a * f \<le> j \<and> j < off D + a * f + f) \<longrightarrow>
                    (copy h d s ! base D) ! j = (h ! base D) ! j)"
proof -
  let ?d = "\<lparr>base = base D, off = off D + a * f, len = f, cap = cap D - a * f\<rparr>"
  let ?s = "\<lparr>base = base S, off = off S + b * f, len = f, cap = cap S - b * f\<rparr>"
  have la: "a * f + f \<le> nd * f" using a by (rule run_bound)
  have lb: "b * f + f \<le> ns * f" using b by (rule run_bound)
  have capD: "nd * f \<le> cap D" and capS: "ns * f \<le> cap S"
    using dreg sreg by (auto simp: region_ok_def)
  have cD: "int a * int f + int f \<le> int (cap D)"
    using run_int(1)[OF a, of f] capD by (metis of_nat_le_iff of_nat_mult order_trans)
  have cS: "int b * int f + int f \<le> int (cap S)"
    using run_int(1)[OF b, of f] capS by (metis of_nat_le_iff of_nat_mult order_trans)
  have rd: "reslice D (mul64 (int a) (int f)) (add64 (mul64 (int a) (int f)) (int f)) = Inr ?d"
    unfolding run_indices[OF a bd] reslice_def
    using cD run_int(2,3)[OF a, of f] by simp
  have rs: "reslice S (mul64 (int b) (int f)) (add64 (mul64 (int b) (int f)) (int f)) = Inr ?s"
    unfolding run_indices[OF b bs] reslice_def
    using cS run_int(2,3)[OF b, of f] by simp
  have props: "length (copy h ?d ?s) = length h \<and>
               (\<forall>x. x \<noteq> base D \<longrightarrow> copy h ?d ?s ! x = h ! x) \<and>
               length (copy h ?d ?s ! base D) = length (h ! base D) \<and>
               (\<forall>t<f. (copy h ?d ?s ! base D) ! (off D + a * f + t) = (h ! base S) ! (off S + b * f + t)) \<and>
               (\<forall>j<length (h ! base D). \<not> (off D + a * f \<le> j \<and> j < off D + a * f + f) \<longrightarrow>
                    (copy h ?d ?s ! base D) ! j = (h ! base D) ! j)"
  proof (cases "f = 0")
    case True
    then have "copy h ?d ?s = h" by (intro copy_empty) simp
    then show ?thesis using True by simp
  next
    case False
    then have f: "0 < f" by simp
    have nd0: "0 < nd * f" and ns0: "0 < ns * f" using a b f by auto
    have bD: "base D < length h" and lD: "off D + nd * f \<le> length (h ! base D)"
      using dreg nd0 by (auto simp: region_ok_def)
    have lS: "off S + ns * f \<le> length (h ! base S)"
      using sreg ns0 by (auto simp: region_ok_def)
    have k: "min (len ?d) (len ?s) = f" by simp
    have b': "base ?d < length h" using bD by simp
    have dk: "off ?d + f \<le> length (h ! base ?d)" using lD la by simp
    have sk: "off ?s + f \<le> length (h ! base ?s)" using lS lb by simp
    note ct = copy_target[OF k b' dk sk]
    have l: "length (copy h ?d ?s ! base D) = length (h ! base D)" using ct(1) by simp
    have w: "\<forall>t<f. (copy h ?d ?s ! base D) ! (off D + a * f + t) = (h ! base S) ! (off S + b * f + t)"
    proof (intro allI impI)
      fix t assume t: "t < f"
      have "off D + a * f + t < length (h ! base D)" using lD la t by linarith
      from ct(2)[of "off D + a * f + t"] this t
      show "(copy h ?d ?s ! base D) ! (off D + a * f + t) = (h ! base S) ! (off S + b * f + t)"
        by simp
    qed
    have u: "\<forall>j<length (h ! base D). \<not> (off D + a * f \<le> j \<and> j < off D + a * f + f) \<longrightarrow>
                    (copy h ?d ?s ! base D) ! j = (h ! base D) ! j"
    proof (intro allI impI)
      fix j assume "j < length (h ! base D)" "\<not> (off D + a * f \<le> j \<and> j < off D + a * f + f)"
      with ct(2)[of j] show "(copy h ?d ?s ! base D) ! j = (h ! base D) ! j" by simp
    qed
    have o: "\<forall>x. x \<noteq> base D \<longrightarrow> copy h ?d ?s ! x = h ! x"
      using copy_other[of _ ?d h ?s] by simp
    show ?thesis using l w u o by simp
  qed
  show ?thesis using rd rs props by blast
qed

lemma region_ok_cong:
  "region_ok h s k \<Longrightarrow> length h' = length h \<Longrightarrow> length (h' ! base s) = length (h ! base s) \<Longrightarrow>
   region_ok h' s k"
  by (simp add: region_ok_def)

lemma region_ok_grown:
  "region_ok h s k \<Longrightarrow> length h \<le> length h1 \<Longrightarrow> \<forall>x<length h. h1 ! x = h ! x \<Longrightarrow>
   region_ok h1 s k"
  by (auto simp: region_ok_def)

lemma get_loop_append:
  "get_loop h cm sl src (xs @ ys) =
     (case get_loop h cm sl src xs of Inl e \<Rightarrow> Inl e | Inr h' \<Rightarrow> get_loop h' cm sl src ys)"
  by (induction xs arbitrary: h) (auto split: sum.splits)

lemma put_loop_append:
  "put_loop h p dst (xs @ ys) =
     (case put_loop h p dst xs of Inl e \<Rightarrow> Inl e | Inr h' \<Rightarrow> put_loop h' p dst ys)"
  by (induction xs arbitrary: h) (auto split: sum.splits)

lemma get_chan_run:
  assumes dreg: "region_ok h sl (L * f)" and sreg: "region_ok h (Samples src) (n * f)"
    and cc: "cc < L" and li: "length (cmap_i cm) = L"
    and ci: "cmap_i cm ! cc = int cn" and cn: "cn < n"
    and fr: "Frames src = int f"
    and bd: "int L * int f < 2 ^ 63" and bs: "int n * int f < 2 ^ 63"
  shows "\<exists>h'. get_chan h cm sl src (int cc) = Inr h' \<and>
               length h' = length h \<and>
               (\<forall>x. x \<noteq> base sl \<longrightarrow> h' ! x = h ! x) \<and>
               length (h' ! base sl) = length (h ! base sl) \<and>
               (\<forall>t<f. (h' ! base sl) ! (off sl + cc * f + t) =
                       (h ! base (Samples src)) ! (off (Samples src) + cn * f + t)) \<and>
               (\<forall>j<length (h ! base sl). \<not> (off sl + cc * f \<le> j \<and> j < off sl + cc * f + f) \<longrightarrow>
                    (h' ! base sl) ! j = (h ! base sl) ! j)"
proof -
  from copy_run[OF dreg sreg cc cn bd bs, of ] obtain d s where
    rd: "reslice sl (mul64 (int cc) (int f)) (add64 (mul64 (int cc) (int f)) (int f)) = Inr d"
    and rs: "reslice (Samples src) (mul64 (int cn) (int f)) (add64 (mul64 (int cn) (int f)) (int f)) = Inr s"
    and props: "length (copy h d s) = length h \<and>
               (\<forall>x. x \<noteq> base sl \<longrightarrow> copy h d s ! x = h ! x) \<and>
               length (copy h d s ! base sl) = length (h ! base sl) \<and>
               (\<forall>t<f. (copy h d s ! base sl) ! (off sl + cc * f + t) =
                       (h ! base (Samples src)) ! (off (Samples src) + cn * f + t)) \<and>
               (\<forall>j<length (h ! base sl). \<not> (off sl + cc * f \<le> j \<and> j < off sl + cc * f + f) \<longrightarrow>
                    (copy h d s ! base sl) ! j = (h ! base sl) ! j)"
    by blast
  have im: "imapC cm (int cc) = Inr (int cn)"
    using cc li ci by (simp add: imapC_def index_int_def)
  have "get_chan h cm sl src (int cc) = Inr (copy h d s)"
    using im rd rs fr by (simp add: get_chan_def Let_def)
  then show ?thesis using props by simp
qed

lemma put_chan_run:
  assumes dreg: "region_ok h (Samples dst) (n * f)" and sreg: "region_ok h (p_samples p) (L * f)"
    and c: "c < n" and lm: "length (cmap_m cm) = n" and pc: "p_cmap p = Some cm"
    and mc: "cmap_m cm ! c = int ccn" and ccn: "ccn < L"
    and fr: "p_n p = int f"
    and bd: "int n * int f < 2 ^ 63" and bs: "int L * int f < 2 ^ 63"
  shows "\<exists>h'. put_chan h p dst (int c) = Inr h' \<and>
               length h' = length h \<and>
               (\<forall>x. x \<noteq> base (Samples dst) \<longrightarrow> h' ! x = h ! x) \<and>
               length (h' ! base (Samples dst)) = length (h ! base (Samples dst)) \<and>
               (\<forall>t<f. (h' ! base (Samples dst)) ! (off (Samples dst) + c * f + t) =
                       (h ! base (p_samples p)) ! (off (p_samples p) + ccn * f + t)) \<and>
               (\<forall>j<length (h ! base (Samples dst)).
                    \<not> (off (Samples dst) + c * f \<le> j \<and> j < off (Samples dst) + c * f + f) \<longrightarrow>
                    (h' ! base (Samples dst)) ! j = (h ! base (Samples dst)) ! j)"
proof -
  from copy_run[OF dreg sreg c ccn bd bs] obtain d s where
    rd: "reslice (Samples dst) (mul64 (int c) (int f)) (add64 (mul64 (int c) (int f)) (int f)) = Inr d"
    and rs: "reslice (p_samples p) (mul64 (int ccn) (int f)) (add64 (mul64 (int ccn) (int f)) (int f)) = Inr s"
    and props: "length (copy h d s) = length h \<and>
               (\<forall>x. x \<noteq> base (Samples dst) \<longrightarrow> copy h d s ! x = h ! x) \<and>
               length (copy h d s ! base (Samples dst)) = length (h ! base (Samples dst)) \<and>
               (\<forall>t<f. (copy h d s ! base (Samples dst)) ! (off (Samples dst) + c * f + t) =
                       (h ! base (p_samples p)) ! (off (p_samples p) + ccn * f + t)) \<and>
               (\<forall>j<length (h ! base (Samples dst)).
                    \<not> (off (Samples dst) + c * f \<le> j \<and> j < off (Samples dst) + c * f + f) \<longrightarrow>
                    (copy h d s ! base (Samples dst)) ! j = (h ! base (Samples dst)) ! j)"
    by blast
  have mp: "mapC cm (int c) = Inr (int ccn)"
    using c lm mc by (simp add: mapC_def index_int_def)
  have "put_chan h p dst (int c) = Inr (copy h d s)"
    using mp pc rd rs fr by (simp add: put_chan_def Let_def)
  then show ?thesis using props by simp
qed

lemma put_chan_skip:
  assumes c: "c < n" and lm: "length (cmap_m cm) = n" and pc: "p_cmap p = Some cm"
    and mc: "cmap_m cm ! c = - 1"
  shows "put_chan h p dst (int c) = Inr h"
  using assms by (simp add: put_chan_def mapC_def index_int_def)

text \<open>The iterations of \<^verbatim>\<open>get\<close> and \<^verbatim>\<open>put\<close>, by induction on the number of channels done.\<close>

lemma get_loop_runs:
  assumes dreg: "region_ok h0 sl (L * f)" and sreg: "region_ok h0 (Samples src) (n * f)"
    and li: "length (cmap_i cm) = L"
    and rng: "\<forall>cc<L. 0 \<le> cmap_i cm ! cc \<and> cmap_i cm ! cc < int n"
    and fr: "Frames src = int f"
    and sep: "0 < f \<longrightarrow> base sl \<noteq> base (Samples src)"
    and bd: "int L * int f < 2 ^ 63" and bs: "int n * int f < 2 ^ 63"
  shows "k \<le> L \<Longrightarrow>
         \<exists>h'. get_loop h0 cm sl src [0..<k] = Inr h' \<and>
              length h' = length h0 \<and>
              (\<forall>x. x \<noteq> base sl \<longrightarrow> h' ! x = h0 ! x) \<and>
              length (h' ! base sl) = length (h0 ! base sl) \<and>
              (\<forall>cc<k. \<forall>t<f. (h' ! base sl) ! (off sl + cc * f + t) =
                    (h0 ! base (Samples src)) ! (off (Samples src) + nat (cmap_i cm ! cc) * f + t))"
proof (induction k)
  case 0
  then show ?case by simp
next
  case (Suc k)
  then have kL: "k < L" by simp
  from Suc.IH kL obtain h' where
    gl: "get_loop h0 cm sl src [0..<k] = Inr h'"
    and len: "length h' = length h0"
    and oth: "\<forall>x. x \<noteq> base sl \<longrightarrow> h' ! x = h0 ! x"
    and lsl: "length (h' ! base sl) = length (h0 ! base sl)"
    and runs: "\<forall>cc<k. \<forall>t<f. (h' ! base sl) ! (off sl + cc * f + t) =
                    (h0 ! base (Samples src)) ! (off (Samples src) + nat (cmap_i cm ! cc) * f + t)"
    by auto
  let ?ss = "Samples src"
  let ?cn = "nat (cmap_i cm ! k)"
  have ci: "cmap_i cm ! k = int ?cn" and cn: "?cn < n" using rng kL by auto
  have dreg': "region_ok h' sl (L * f)" using dreg len lsl by (rule region_ok_cong)
  have src_same: "0 < f \<Longrightarrow> h' ! base ?ss = h0 ! base ?ss" using sep oth by auto
  have sreg': "region_ok h' ?ss (n * f)"
  proof (cases "0 < f")
    case True
    then show ?thesis using sreg len src_same by (intro region_ok_cong[OF sreg]) auto
  next
    case False
    then show ?thesis using sreg by (simp add: region_ok_def)
  qed
  from get_chan_run[OF dreg' sreg' kL li ci cn fr bd bs] obtain h'' where
    gc: "get_chan h' cm sl src (int k) = Inr h''"
    and len': "length h'' = length h'"
    and oth': "\<forall>x. x \<noteq> base sl \<longrightarrow> h'' ! x = h' ! x"
    and lsl': "length (h'' ! base sl) = length (h' ! base sl)"
    and new: "\<forall>t<f. (h'' ! base sl) ! (off sl + k * f + t) =
                       (h' ! base ?ss) ! (off ?ss + ?cn * f + t)"
    and old: "\<forall>j<length (h' ! base sl). \<not> (off sl + k * f \<le> j \<and> j < off sl + k * f + f) \<longrightarrow>
                    (h'' ! base sl) ! j = (h' ! base sl) ! j"
    by blast
  have g: "get_loop h0 cm sl src [0..<Suc k] = Inr h''"
    using gl gc by (simp add: get_loop_append)
  have r: "\<forall>cc<Suc k. \<forall>t<f. (h'' ! base sl) ! (off sl + cc * f + t) =
                    (h0 ! base ?ss) ! (off ?ss + nat (cmap_i cm ! cc) * f + t)"
  proof (intro allI impI)
    fix cc t assume cc: "cc < Suc k" and t: "t < f"
    then have f0: "0 < f" by simp
    show "(h'' ! base sl) ! (off sl + cc * f + t) =
                    (h0 ! base ?ss) ! (off ?ss + nat (cmap_i cm ! cc) * f + t)"
    proof (cases "cc = k")
      case True
      then show ?thesis using new t src_same[OF f0] by simp
    next
      case False
      then have ck: "cc < k" using cc by simp
      then have ccL: "cc < L" using kL by simp
      have Lf: "0 < L * f" using kL f0 by simp
      have "off sl + L * f \<le> length (h0 ! base sl)" using dreg Lf by (simp add: region_ok_def)
      moreover have "cc * f + f \<le> L * f" using ccL by (rule run_bound)
      ultimately have j: "off sl + cc * f + t < length (h' ! base sl)" using t lsl by linarith
      have "\<not> (k * f \<le> cc * f + t \<and> cc * f + t < k * f + f)"
        using run_disjoint[of k cc t f] False t by simp
      then have "\<not> (off sl + k * f \<le> off sl + cc * f + t \<and> off sl + cc * f + t < off sl + k * f + f)"
        by linarith
      then have "(h'' ! base sl) ! (off sl + cc * f + t) = (h' ! base sl) ! (off sl + cc * f + t)"
        using old j by blast
      then show ?thesis using runs ck t by simp
    qed
  qed
  show ?case using g len len' oth oth' lsl lsl' r by simp
qed

lemma put_loop_runs:
  assumes dreg: "region_ok h0 (Samples dst) (n * f)" and sreg: "region_ok h0 (p_samples p) (L * f)"
    and lm: "length (cmap_m cm) = n" and pc: "p_cmap p = Some cm"
    and rng: "\<forall>c<n. cmap_m cm ! c = - 1 \<or> (0 \<le> cmap_m cm ! c \<and> cmap_m cm ! c < int L)"
    and fr: "p_n p = int f"
    and sep: "0 < f \<longrightarrow> base (Samples dst) \<noteq> base (p_samples p)"
    and bd: "int n * int f < 2 ^ 63" and bs: "int L * int f < 2 ^ 63"
  shows "k \<le> n \<Longrightarrow>
         \<exists>h'. put_loop h0 p dst [0..<k] = Inr h' \<and>
              length h' = length h0 \<and>
              (\<forall>x. x \<noteq> base (Samples dst) \<longrightarrow> h' ! x = h0 ! x) \<and>
              length (h' ! base (Samples dst)) = length (h0 ! base (Samples dst)) \<and>
              (\<forall>c<k. cmap_m cm ! c \<noteq> - 1 \<longrightarrow>
                 (\<forall>t<f. (h' ! base (Samples dst)) ! (off (Samples dst) + c * f + t) =
                    (h0 ! base (p_samples p)) ! (off (p_samples p) + nat (cmap_m cm ! c) * f + t)))"
proof (induction k)
  case 0
  then show ?case by simp
next
  case (Suc k)
  then have kn: "k < n" by simp
  let ?ds = "Samples dst"
  let ?ps = "p_samples p"
  from Suc.IH kn obtain h' where
    pl: "put_loop h0 p dst [0..<k] = Inr h'"
    and len: "length h' = length h0"
    and oth: "\<forall>x. x \<noteq> base ?ds \<longrightarrow> h' ! x = h0 ! x"
    and lds: "length (h' ! base ?ds) = length (h0 ! base ?ds)"
    and runs: "\<forall>c<k. cmap_m cm ! c \<noteq> - 1 \<longrightarrow>
                 (\<forall>t<f. (h' ! base ?ds) ! (off ?ds + c * f + t) =
                    (h0 ! base ?ps) ! (off ?ps + nat (cmap_m cm ! c) * f + t))"
    by auto
  have dreg': "region_ok h' ?ds (n * f)" using dreg len lds by (rule region_ok_cong)
  have src_same: "0 < f \<Longrightarrow> h' ! base ?ps = h0 ! base ?ps" using sep oth by auto
  have sreg': "region_ok h' ?ps (L * f)"
  proof (cases "0 < f")
    case True
    then show ?thesis using sreg len src_same by (intro region_ok_cong[OF sreg]) auto
  next
    case False
    then show ?thesis using sreg by (simp add: region_ok_def)
  qed
  show ?case
  proof (cases "cmap_m cm ! k = - 1")
    case True
    have "put_chan h' p dst (int k) = Inr h'" using kn lm pc True by (rule put_chan_skip)
    then have g: "put_loop h0 p dst [0..<Suc k] = Inr h'" using pl by (simp add: put_loop_append)
    have "\<forall>c<Suc k. cmap_m cm ! c \<noteq> - 1 \<longrightarrow>
                 (\<forall>t<f. (h' ! base ?ds) ! (off ?ds + c * f + t) =
                    (h0 ! base ?ps) ! (off ?ps + nat (cmap_m cm ! c) * f + t))"
      using runs True by (auto simp: less_Suc_eq)
    then show ?thesis using g len oth lds by blast
  next
    case False
    let ?cc = "nat (cmap_m cm ! k)"
    have mc: "cmap_m cm ! k = int ?cc" and ccL: "?cc < L" using rng kn False by auto
    from put_chan_run[OF dreg' sreg' kn lm pc mc ccL fr bd bs] obtain h'' where
      gc: "put_chan h' p dst (int k) = Inr h''"
      and len': "length h'' = length h'"
      and oth': "\<forall>x. x \<noteq> base ?ds \<longrightarrow> h'' ! x = h' ! x"
      and lds': "length (h'' ! base ?ds) = length (h' ! base ?ds)"
      and new: "\<forall>t<f. (h'' ! base ?ds) ! (off ?ds + k * f + t) =
                       (h' ! base ?ps) ! (off ?ps + ?cc * f + t)"
      and old: "\<forall>j<length (h' ! base ?ds). \<not> (off ?ds + k * f \<le> j \<and> j < off ?ds + k * f + f) \<longrightarrow>
                    (h'' ! base ?ds) ! j = (h' ! base ?ds) ! j"
      by blast
    have g: "put_loop h0 p dst [0..<Suc k] = Inr h''"
      using pl gc by (simp add: put_loop_append)
    have r: "\<forall>c<Suc k. cmap_m cm ! c \<noteq> - 1 \<longrightarrow>
                 (\<forall>t<f. (h'' ! base ?ds) ! (off ?ds + c * f + t) =
                    (h0 ! base ?ps) ! (off ?ps + nat (cmap_m cm ! c) * f + t))"
    proof (intro allI impI)
      fix c t assume c: "c < Suc k" and m1: "cmap_m cm ! c \<noteq> - 1" and t: "t < f"
      then have f0: "0 < f" by simp
      show "(h'' ! base ?ds) ! (off ?ds + c * f + t) =
                    (h0 ! base ?ps) ! (off ?ps + nat (cmap_m cm ! c) * f + t)"
      proof (cases "c = k")
        case True
        then show ?thesis using new t src_same[OF f0] by simp
      next
        case False
        then have ck: "c < k" using c by simp
        then have cn: "c < n" using kn by simp
        have nf: "0 < n * f" using kn f0 by simp
        have "off ?ds + n * f \<le> length (h0 ! base ?ds)" using dreg nf by (simp add: region_ok_def)
        moreover have "c * f + f \<le> n * f" using cn by (rule run_bound)
        ultimately have j: "off ?ds + c * f + t < length (h' ! base ?ds)" using t lds by linarith
        have "\<not> (k * f \<le> c * f + t \<and> c * f + t < k * f + f)"
          using run_disjoint[of k c t f] False t by simp
        then have "\<not> (off ?ds + k * f \<le> off ?ds + c * f + t \<and> off ?ds + c * f + t < off ?ds + k * f + f)"
          by linarith
        then have "(h'' ! base ?ds) ! (off ?ds + c * f + t) = (h' ! base ?ds) ! (off ?ds + c * f + t)"
          using old j by blast
        then show ?thesis using runs ck m1 t by simp
      qed
    qed
    show ?thesis using g len len' oth oth' lds lds' r by simp
  qed
qed

text \<open>A selection of distinct channels is no longer than the channel count.\<close>

lemma selection_length:
  assumes d: "distinct cs" and r: "\<forall>c\<in>set cs. 0 \<le> c \<and> c < int n"
  shows "length cs \<le> n"
proof -
  have "set cs \<subseteq> int ` {0..<n}"
  proof
    fix c assume "c \<in> set cs"
    then have "0 \<le> c" "c < int n" using r by auto
    then have "nat c \<in> {0..<n}" "c = int (nat c)" by auto
    then show "c \<in> int ` {0..<n}" by blast
  qed
  then have "card (set cs) \<le> card (int ` {0..<n})" by (intro card_mono) auto
  also have "\<dots> \<le> n" using card_image_le[of "{0..<n}" int] by simp
  finally show ?thesis using d by (simp add: distinct_card)
qed

text \<open>What \<^verbatim>\<open>buffer\<close> returns lies in the heap, and arrays already there are untouched.\<close>

lemma buffer_regions:
  assumes v: "valid_slice h d" and b5: "5 * (int L * int f) < 2 ^ 63"
  shows "\<exists>h1 sl. buffer h d (int L) (int f) = Inr (h1, sl) \<and>
           region_ok h1 sl (L * f) \<and> len sl = L * f \<and>
           length h \<le> length h1 \<and> (\<forall>x<length h. h1 ! x = h ! x) \<and>
           ((base sl = base d \<and> L * f \<le> cap d) \<or> base sl = length h)"
proof -
  have n0: "0 \<le> int L * int f" by simp
  have nn: "nat (int L * int f) = L * f" by (simp add: nat_mult_distrib)
  have b63: "int L * int f < 2 ^ 63" using n0 b5 by linarith
  show ?thesis
  proof (cases "int L * int f \<le> int (cap d)")
    case True
    then have le: "L * f \<le> cap d" by (metis of_nat_le_iff of_nat_mult)
    have b: "buffer h d (int L) (int f) = Inr (h, d\<lparr>len := L * f\<rparr>)"
      using buffer_keep[OF n0 b63 True, of h] nn by simp
    have "region_ok h (d\<lparr>len := L * f\<rparr>) (L * f)"
      using v le by (auto simp: region_ok_def valid_slice_def)
    then show ?thesis using b le by simp
  next
    case False
    then have lt: "int (cap d) < int L * int f" by simp
    let ?M = "nat (5 * (int L * int f) div 3)"
    let ?arr = "contents h d @ replicate (?M - len d) 0"
    let ?sl = "\<lparr>base = length h, off = 0, len = nat (int L * int f), cap = ?M\<rparr>"
    have b: "buffer h d (int L) (int f) = Inr (h @ [?arr], ?sl)"
      by (rule buffer_grow[OF v n0 b5 lt])
    have ld: "len d \<le> cap d" using v by (simp add: valid_slice_def)
    have "int L * int f \<le> 5 * (int L * int f) div 3" using n0 by linarith
    then have "nat (int L * int f) \<le> ?M" by (rule nat_mono)
    then have LM: "L * f \<le> ?M" by (simp only: nn)
    have "int (cap d) \<le> int (L * f)" using lt by simp
    then have "cap d \<le> L * f" by (simp only: of_nat_le_iff)
    then have ldM: "len d \<le> ?M" using LM ld by linarith
    have "length (contents h d) = len d"
      using v by (cases "cap d = 0") (auto simp: contents_def valid_slice_def)
    then have la: "?M \<le> length ?arr" using ldM by simp
    have "region_ok (h @ [?arr]) ?sl (L * f)"
      using LM la by (simp add: region_ok_def nn)
    moreover have "\<forall>x<length h. (h @ [?arr]) ! x = h ! x" by (simp add: nth_append)
    ultimately show ?thesis using b nn by simp
  qed
qed

text \<open>
  Claim C2.  Let \<open>cs\<close> be a non-empty selection of distinct channels in \<open>[0, n)\<close>, \<open>p\<close> a
  packet with the channel map built from \<open>cs\<close>, and \<open>src\<close> and \<open>dst\<close> two Blocks of \<open>n\<close>
  channels and \<open>f\<close> frames whose buffers hold \<open>n * f\<close> samples in the heap (the packet's
  own buffer, if it has one, being another array, and \<open>5 * n * f\<close> below \<open>2^63\<close>).  Then
  \<^verbatim>\<open>get\<close> from \<open>src\<close> followed by \<^verbatim>\<open>put\<close> into \<open>dst\<close> does not panic, \<^verbatim>\<open>put\<close> returns \<open>f\<close>,
  and for every selected channel the frame-run of that channel in \<open>dst\<close> afterwards is
  the frame-run of that channel in \<open>src\<close> before.
\<close>

theorem get_put_roundtrip:
  assumes ne: "cs \<noteq> []" and dist: "distinct cs"
    and rng: "\<forall>c\<in>set cs. 0 \<le> c \<and> c < int n"
    and cm: "newCmap v cs = Inr cm" and vn: "fChannels v = int n" and pc: "p_cmap p = Some cm"
    and vp: "valid_slice h (p_samples p)"
    and sc: "Channels src = int n" and sf: "Frames src = int f"
    and vs: "valid_slice h (Samples src)" and ls: "len (Samples src) = n * f"
    and dc: "Channels dst = int n" and df: "Frames dst = int f"
    and vd: "valid_slice h (Samples dst)" and ld: "len (Samples dst) = n * f"
    and sep: "cap (p_samples p) \<noteq> 0 \<longrightarrow>
                base (p_samples p) \<noteq> base (Samples src) \<and> base (p_samples p) \<noteq> base (Samples dst)"
    and b5: "5 * (int n * int f) < 2 ^ 63"
  shows "\<exists>h1 p1 h2. get h p src = Inr (h1, p1) \<and> put h1 p1 dst = Inr (h2, int f) \<and>
           (\<forall>c\<in>set cs. frame_run h2 (Samples dst) (nat c) f = frame_run h (Samples src) (nat c) f)"
proof -
  let ?L = "length cs"
  let ?ss = "Samples src"
  let ?ds = "Samples dst"
  have n0: "0 \<le> fChannels v" using vn by simp
  have rng': "\<forall>c\<in>set cs. 0 \<le> c \<and> c < fChannels v" using rng vn by simp
  from newCmap_selection[OF n0 ne rng'] cm have
    ci: "cmap_i cm = cs" and lm: "length (cmap_m cm) = n"
    and un: "\<forall>c<n. int c \<notin> set cs \<longrightarrow> cmap_m cm ! c = - 1"
    and la: "\<forall>k<?L. (\<forall>j. k < j \<and> j < ?L \<longrightarrow> cs ! j \<noteq> cs ! k) \<longrightarrow> cmap_m cm ! nat (cs ! k) = int k"
    using vn by auto
  have fw: "\<forall>k<?L. cmap_m cm ! nat (cs ! k) = int k"
  proof (intro allI impI)
    fix k assume k: "k < ?L"
    have "\<forall>j. k < j \<and> j < ?L \<longrightarrow> cs ! j \<noteq> cs ! k"
      using dist k by (auto simp: nth_eq_iff_index_eq)
    then show "cmap_m cm ! nat (cs ! k) = int k" using la k by blast
  qed
  have Ln: "?L \<le> n" using dist rng by (rule selection_length)
  have L0: "0 < ?L" using ne by simp
  have n1: "0 < n" using Ln L0 by linarith
  have LNf: "int ?L * int f \<le> int n * int f" using Ln by (simp add: mult_right_mono)
  have b5L: "5 * (int ?L * int f) < 2 ^ 63" using LNf b5 by linarith
  have bn: "int n * int f < 2 ^ 63" using b5 by simp
  have bL: "int ?L * int f < 2 ^ 63" using LNf bn by linarith
  have mrng: "\<forall>c<n. cmap_m cm ! c = - 1 \<or> (0 \<le> cmap_m cm ! c \<and> cmap_m cm ! c < int ?L)"
  proof (intro allI impI)
    fix c assume c: "c < n"
    show "cmap_m cm ! c = - 1 \<or> (0 \<le> cmap_m cm ! c \<and> cmap_m cm ! c < int ?L)"
    proof (cases "int c \<in> set cs")
      case False
      then show ?thesis using un c by simp
    next
      case True
      then obtain k where k: "k < ?L" "cs ! k = int c" by (auto simp: in_set_conv_nth)
      then have "cmap_m cm ! c = int k" using fw by force
      then show ?thesis using k by simp
    qed
  qed
  have irng: "\<forall>cc<?L. 0 \<le> cmap_i cm ! cc \<and> cmap_i cm ! cc < int n"
    using rng ci by simp
  txt \<open>The packet buffer returned by \<^verbatim>\<open>buffer\<close>.\<close>
  from buffer_regions[OF vp b5L] obtain h1 sl where
    bf: "buffer h (p_samples p) (int ?L) (int f) = Inr (h1, sl)"
    and rsl: "region_ok h1 sl (?L * f)"
    and grow: "length h \<le> length h1" and same: "\<forall>x<length h. h1 ! x = h ! x"
    and where_sl: "(base sl = base (p_samples p) \<and> ?L * f \<le> cap (p_samples p)) \<or> base sl = length h"
    by blast
  have rss: "region_ok h ?ss (n * f)" using vs ls by (intro valid_region) (auto simp: valid_slice_def)
  have rds: "region_ok h ?ds (n * f)" using vd ld by (intro valid_region) (auto simp: valid_slice_def)
  have rss1: "region_ok h1 ?ss (n * f)" using rss grow same by (rule region_ok_grown)
  have rds1: "region_ok h1 ?ds (n * f)" using rds grow same by (rule region_ok_grown)
  have bss: "0 < f \<Longrightarrow> base ?ss < length h" using rss n1 by (simp add: region_ok_def)
  have bds: "0 < f \<Longrightarrow> base ?ds < length h" using rds n1 by (simp add: region_ok_def)
  have sep1: "0 < f \<longrightarrow> base sl \<noteq> base ?ss \<and> base sl \<noteq> base ?ds"
  proof
    assume f0: "0 < f"
    from where_sl show "base sl \<noteq> base ?ss \<and> base sl \<noteq> base ?ds"
    proof
      assume a: "base sl = base (p_samples p) \<and> ?L * f \<le> cap (p_samples p)"
      have "0 < ?L * f" using L0 f0 by simp
      then have "cap (p_samples p) \<noteq> 0" using a by linarith
      then show ?thesis using sep a by simp
    next
      assume "base sl = length h"
      then show ?thesis using bss[OF f0] bds[OF f0] by simp
    qed
  qed
  txt \<open>Gathering from the source Block.\<close>
  have li: "length (cmap_i cm) = ?L" using ci by simp
  have sep_g: "0 < f \<longrightarrow> base sl \<noteq> base ?ss" using sep1 by simp
  from get_loop_runs[OF rsl rss1 li irng sf sep_g bL bn, of ?L] obtain hg where
    gl: "get_loop h1 cm sl src [0..<?L] = Inr hg"
    and lg: "length hg = length h1"
    and og: "\<forall>x. x \<noteq> base sl \<longrightarrow> hg ! x = h1 ! x"
    and lsg: "length (hg ! base sl) = length (h1 ! base sl)"
    and rg: "\<forall>cc<?L. \<forall>t<f. (hg ! base sl) ! (off sl + cc * f + t) =
                (h1 ! base ?ss) ! (off ?ss + nat (cmap_i cm ! cc) * f + t)"
    by auto
  let ?p1 = "p\<lparr>p_samples := sl, p_n := int f\<rparr>"
  have g: "get h p src = Inr (hg, ?p1)"
    using pc bf gl sf li by (simp add: get_def Let_def)
  txt \<open>Scattering into the destination Block.\<close>
  have rsl_g: "region_ok hg (p_samples ?p1) (?L * f)" using rsl lg lsg by (simp add: region_ok_def)
  have ds_same: "0 < f \<Longrightarrow> hg ! base ?ds = h1 ! base ?ds" using og sep1 by auto
  have rds_g: "region_ok hg ?ds (n * f)"
  proof (cases "0 < f")
    case True
    then show ?thesis using rds1 lg ds_same by (intro region_ok_cong[OF rds1]) auto
  next
    case False
    then show ?thesis using rds1 by (simp add: region_ok_def)
  qed
  have pc1: "p_cmap ?p1 = Some cm" using pc by simp
  have pn1: "p_n ?p1 = int f" by simp
  have sep_p: "0 < f \<longrightarrow> base ?ds \<noteq> base (p_samples ?p1)" using sep1 by auto
  from put_loop_runs[OF rds_g rsl_g lm pc1 mrng pn1 sep_p bn bL, of n] obtain h2 where
    pl: "put_loop hg ?p1 dst [0..<n] = Inr h2"
    and l2: "length h2 = length hg"
    and lds2: "length (h2 ! base ?ds) = length (hg ! base ?ds)"
    and r2: "\<forall>c<n. cmap_m cm ! c \<noteq> - 1 \<longrightarrow>
                 (\<forall>t<f. (h2 ! base ?ds) ! (off ?ds + c * f + t) =
                    (hg ! base (p_samples ?p1)) ! (off (p_samples ?p1) + nat (cmap_m cm ! c) * f + t))"
    by auto
  have pu: "put hg ?p1 dst = Inr (h2, int f)"
    using pl dc by (simp add: put_def)
  txt \<open>The frame-runs of the selected channels.\<close>
  have runs: "\<forall>c\<in>set cs. frame_run h2 ?ds (nat c) f = frame_run h ?ss (nat c) f"
  proof
    fix c assume cin: "c \<in> set cs"
    then obtain k where k: "k < ?L" "cs ! k = c" by (auto simp: in_set_conv_nth)
    have c0: "0 \<le> c" "c < int n" using rng cin by auto
    let ?c = "nat c"
    have cn: "?c < n" using c0 by simp
    have mk: "cmap_m cm ! ?c = int k" using fw k by auto
    show "frame_run h2 ?ds ?c f = frame_run h ?ss ?c f"
    proof (cases "f = 0")
      case True
      then show ?thesis by (simp add: frame_run_def)
    next
      case False
      then have f0: "0 < f" by simp
      have nf: "0 < n * f" using n1 f0 by simp
      have lenD: "off ?ds + n * f \<le> length (h ! base ?ds)" using rds nf by (simp add: region_ok_def)
      have lenS: "off ?ss + n * f \<le> length (h ! base ?ss)" using rss nf by (simp add: region_ok_def)
      have cb: "?c * f + f \<le> n * f" using cn by (rule run_bound)
      have h1ds: "h1 ! base ?ds = h ! base ?ds" using same bds[OF f0] by simp
      have h1ss: "h1 ! base ?ss = h ! base ?ss" using same bss[OF f0] by simp
      have lD2: "length (h2 ! base ?ds) = length (h ! base ?ds)"
        using lds2 ds_same[OF f0] h1ds by simp
      have len1: "length (frame_run h2 ?ds ?c f) = f"
        using lD2 lenD cb by (simp add: frame_run_def)
      have len2: "length (frame_run h ?ss ?c f) = f"
        using lenS cb by (simp add: frame_run_def)
      show ?thesis
      proof (rule nth_equalityI)
        show "length (frame_run h2 ?ds ?c f) = length (frame_run h ?ss ?c f)"
          using len1 len2 by simp
      next
        fix t assume "t < length (frame_run h2 ?ds ?c f)"
        then have t: "t < f" using len1 by simp
        have i1: "off ?ds + ?c * f + t < length (h2 ! base ?ds)" using lD2 lenD cb t by linarith
        have i2: "off ?ss + ?c * f + t < length (h ! base ?ss)" using lenS cb t by linarith
        have "frame_run h2 ?ds ?c f ! t = (h2 ! base ?ds) ! (off ?ds + ?c * f + t)"
          using t i1 by (simp add: frame_run_def)
        also have "\<dots> = (hg ! base sl) ! (off sl + k * f + t)"
          using r2 cn mk t by simp
        also have "\<dots> = (h1 ! base ?ss) ! (off ?ss + nat (cmap_i cm ! k) * f + t)"
          using rg k t by simp
        also have "\<dots> = (h ! base ?ss) ! (off ?ss + ?c * f + t)"
          using h1ss ci k by simp
        also have "\<dots> = frame_run h ?ss ?c f ! t"
          using t i2 by (simp add: frame_run_def)
        finally show "frame_run h2 ?ds ?c f ! t = frame_run h ?ss ?c f ! t" .
      qed
    qed
  qed
  show ?thesis using g pu runs by blast
qed

text \<open>
  The theorem on two channels of three frames with the selection \<open>[1, 0]\<close>: both
  frame-runs arrive in the destination.
\<close>

theorem get_put_roundtrip_witness:
  "\<exists>cm h1 p1 h2.
     newCmap stereo_form [1, 0] = Inr cm \<and>
     get [[1, 2, 3, 4, 5, 6], [0, 0, 0, 0, 0, 0 :: int]] (zero_packet\<lparr>p_cmap := Some cm\<rparr>)
         \<lparr>Samples = \<lparr>base = 0, off = 0, len = 6, cap = 6\<rparr>, Frames = 3, Channels = 2,
          SampleRate = 44100\<rparr> = Inr (h1, p1) \<and>
     put h1 p1 \<lparr>Samples = \<lparr>base = 1, off = 0, len = 6, cap = 6\<rparr>, Frames = 3, Channels = 2,
                SampleRate = 44100\<rparr> = Inr (h2, 3) \<and>
     frame_run h2 \<lparr>base = 1, off = 0, len = 6, cap = 6\<rparr> 0 3 = [1, 2, 3] \<and>
     frame_run h2 \<lparr>base = 1, off = 0, len = 6, cap = 6\<rparr> 1 3 = [4, 5, 6]"
proof -
  let ?h = "[[1, 2, 3, 4, 5, 6], [0, 0, 0, 0, 0, 0 :: int]]"
  let ?src = "\<lparr>Samples = \<lparr>base = 0, off = 0, len = 6, cap = 6\<rparr>, Frames = 3, Channels = 2,
          SampleRate = 44100\<rparr>"
  let ?dst = "\<lparr>Samples = \<lparr>base = 1, off = 0, len = 6, cap = 6\<rparr>, Frames = 3, Channels = 2,
                SampleRate = 44100\<rparr>"
  obtain cm where cm: "newCmap stereo_form [1, 0] = Inr cm"
    by (simp add: newCmap_def stereo_form_def)
  let ?p = "zero_packet\<lparr>p_cmap := Some cm\<rparr>"
  have a1: "[1, 0 :: int] \<noteq> []" "distinct [1, 0 :: int]"
    "\<forall>c\<in>set [1, 0 :: int]. 0 \<le> c \<and> c < int 2" by simp_all
  have a2: "fChannels stereo_form = int 2" "p_cmap ?p = Some cm" by (simp_all add: stereo_form_def)
  have a3: "valid_slice ?h (p_samples ?p)"
    by (simp add: valid_slice_def zero_packet_def nil_slice_def)
  have a4: "Channels ?src = int 2" "Frames ?src = int 3" "valid_slice ?h (Samples ?src)"
    "len (Samples ?src) = 2 * 3" by (simp_all add: valid_slice_def)
  have a5: "Channels ?dst = int 2" "Frames ?dst = int 3" "valid_slice ?h (Samples ?dst)"
    "len (Samples ?dst) = 2 * 3" by (simp_all add: valid_slice_def)
  have a6: "cap (p_samples ?p) \<noteq> 0 \<longrightarrow>
      base (p_samples ?p) \<noteq> base (Samples ?src) \<and> base (p_samples ?p) \<noteq> base (Samples ?dst)"
    by (simp add: zero_packet_def nil_slice_def)
  have a7: "5 * (int 2 * int 3) < 2 ^ 63" by simp
  from get_put_roundtrip[OF a1 cm a2 a3 a4 a5 a6 a7] obtain h1 p1 h2 where
    g: "get ?h ?p ?src = Inr (h1, p1)" and p: "put h1 p1 ?dst = Inr (h2, int 3)"
    and r: "\<forall>c\<in>set [1, 0]. frame_run h2 (Samples ?dst) (nat c) 3 = frame_run ?h (Samples ?src) (nat c) 3"
    by blast
  have r0: "frame_run h2 \<lparr>base = 1, off = 0, len = 6, cap = 6\<rparr> 0 3 = [1, 2, 3]"
    using r by (simp add: frame_run_def)
  have r1: "frame_run h2 \<lparr>base = 1, off = 0, len = 6, cap = 6\<rparr> 1 3 = [4, 5, 6]"
    using r by (simp add: frame_run_def)
  show ?thesis using cm g p r0 r1 by auto
qed

end
